theory Spec2Isabelle
  imports Main
begin

section \<open>JavaScript strings and values\<close>

text \<open>
  A JavaScript string is a sequence of UTF-16 code units. A code unit is modelled as a
  natural number (below 65536 in every real string); the functions of this repository only
  compare code units with constants, so the bound plays no role. ASCII literals are written
  \<open>js ''abc''\<close>.
\<close>

type_synonym cu = nat
type_synonym jsstring = "cu list"

definition js :: "string \<Rightarrow> jsstring" where
  "js s = map of_char s"

text \<open>The character classes of the regular expressions in the source.\<close>

definition isUpperAZ :: "cu \<Rightarrow> bool" where  \<comment> \<open>\<open>[A-Z]\<close>\<close>
  "isUpperAZ c = (65 \<le> c \<and> c \<le> 90)"

definition isLowerAZ :: "cu \<Rightarrow> bool" where  \<comment> \<open>\<open>[a-z]\<close>\<close>
  "isLowerAZ c = (97 \<le> c \<and> c \<le> 122)"

definition isDigit :: "cu \<Rightarrow> bool" where  \<comment> \<open>\<open>[0-9]\<close>\<close>
  "isDigit c = (48 \<le> c \<and> c \<le> 57)"

definition isLetter :: "cu \<Rightarrow> bool" where  \<comment> \<open>\<open>[A-Za-z]\<close>\<close>
  "isLetter c = (isUpperAZ c \<or> isLowerAZ c)"

definition isAlnum :: "cu \<Rightarrow> bool" where  \<comment> \<open>\<open>[A-Za-z0-9]\<close>\<close>
  "isAlnum c = (isLetter c \<or> isDigit c)"

definition isLowerAlnum :: "cu \<Rightarrow> bool" where  \<comment> \<open>\<open>[a-z0-9]\<close>\<close>
  "isLowerAlnum c = (isLowerAZ c \<or> isDigit c)"

definition hyphen :: cu where "hyphen = 45"
definition underscore :: cu where "underscore = 95"
definition dot :: cu where "dot = 46"

definition isHyphen :: "cu \<Rightarrow> bool" where  \<comment> \<open>\<open>-\<close>\<close>
  "isHyphen c = (c = hyphen)"

definition isDot :: "cu \<Rightarrow> bool" where  \<comment> \<open>\<open>\.\<close>\<close>
  "isDot c = (c = dot)"

text \<open>
  \<open>\s\<close> in a regular expression and the characters removed by \<open>String.prototype.trim\<close>
  are the same set: WhiteSpace and LineTerminator of the language definition, that is
  TAB, LF, VT, FF, CR, SPACE, U+00A0, U+1680, U+2000 to U+200A, U+2028, U+2029, U+202F,
  U+205F, U+3000 and U+FEFF.
\<close>

definition isWhiteSpace :: "cu \<Rightarrow> bool" where
  "isWhiteSpace c =
     ((9 \<le> c \<and> c \<le> 13) \<or> c = 32 \<or> c = 160 \<or> c = 5760 \<or> (8192 \<le> c \<and> c \<le> 8202)
      \<or> c = 8232 \<or> c = 8233 \<or> c = 8239 \<or> c = 8287 \<or> c = 12288 \<or> c = 65279)"

definition isSeparator :: "cu \<Rightarrow> bool" where  \<comment> \<open>\<open>[\s_-]\<close>\<close>
  "isSeparator c = (isWhiteSpace c \<or> c = underscore \<or> c = hyphen)"

definition notAlnum :: "cu \<Rightarrow> bool" where  \<comment> \<open>\<open>[^A-Za-z0-9]\<close>\<close>
  "notAlnum c = (\<not> isAlnum c)"

definition notAlnumDot :: "cu \<Rightarrow> bool" where  \<comment> \<open>\<open>[^A-Za-z0-9.]\<close>\<close>
  "notAlnumDot c = (\<not> (isAlnum c \<or> c = dot))"

definition notAlnumHyphen :: "cu \<Rightarrow> bool" where  \<comment> \<open>\<open>[^A-Za-z0-9-]\<close>\<close>
  "notAlnumHyphen c = (\<not> (isAlnum c \<or> c = hyphen))"

subsection \<open>Case conversion\<close>

text \<open>
  \<open>toUpperCase\<close> and \<open>toLowerCase\<close> use the Unicode case mappings of the runtime. On a
  string of ASCII code units they map \<open>a-z\<close> to \<open>A-Z\<close> (and back) and change nothing else;
  that part is written out. The mappings of strings with a code unit outside ASCII are a
  table of the runtime, not of this repository: they are taken as a parameter, and every
  theorem below holds for each value of it.
\<close>

record unicode =
  upperU :: "jsstring \<Rightarrow> jsstring"
  lowerU :: "jsstring \<Rightarrow> jsstring"

definition isAscii :: "cu \<Rightarrow> bool" where
  "isAscii c = (c < 128)"

definition asciiUpper :: "cu \<Rightarrow> cu" where
  "asciiUpper c = (if isLowerAZ c then c - 32 else c)"

definition asciiLower :: "cu \<Rightarrow> cu" where
  "asciiLower c = (if isUpperAZ c then c + 32 else c)"

definition toUpperCase :: "unicode \<Rightarrow> jsstring \<Rightarrow> jsstring" where
  "toUpperCase u s = (if list_all isAscii s then map asciiUpper s else upperU u s)"

definition toLowerCase :: "unicode \<Rightarrow> jsstring \<Rightarrow> jsstring" where
  "toLowerCase u s = (if list_all isAscii s then map asciiLower s else lowerU u s)"

text \<open>A runtime without case mappings outside ASCII, for evaluating on ASCII inputs.\<close>

definition asciiOnly :: unicode where
  "asciiOnly = \<lparr>upperU = (\<lambda>s. s), lowerU = (\<lambda>s. s)\<rparr>"

subsection \<open>String operations of the runtime\<close>

definition trim :: "jsstring \<Rightarrow> jsstring" where
  "trim s = rev (dropWhile isWhiteSpace (rev (dropWhile isWhiteSpace s)))"

text \<open>\<open>/[C]/.test(s)\<close> for a character class \<open>C\<close>.\<close>

definition test :: "(cu \<Rightarrow> bool) \<Rightarrow> jsstring \<Rightarrow> bool" where
  "test C s = list_ex C s"

text \<open>
  \<open>s.replace(/[C]+/g, r)\<close>: every maximal run of characters of the class \<open>C\<close> is replaced
  by \<open>r\<close>, scanning from the left.
\<close>

function replaceRuns :: "(cu \<Rightarrow> bool) \<Rightarrow> jsstring \<Rightarrow> jsstring \<Rightarrow> jsstring" where
  "replaceRuns C r [] = []"
| "replaceRuns C r (c # cs) =
     (if C c then r @ replaceRuns C r (dropWhile C cs) else c # replaceRuns C r cs)"
  by pat_completeness auto
termination
  by (relation "measure (\<lambda>(C, r, s). length s)") (auto simp: le_imp_less_Suc length_dropWhile_le)

text \<open>
  \<open>s.split(/[C]+/)\<close>: the pieces between the maximal runs of characters of \<open>C\<close>; a run at
  the start or at the end of \<open>s\<close> leaves an empty piece there, and the empty string gives
  one empty piece.
\<close>

function splitRuns :: "(cu \<Rightarrow> bool) \<Rightarrow> jsstring \<Rightarrow> jsstring list" where
  "splitRuns C [] = [[]]"
| "splitRuns C (c # cs) =
     (if C c then [] # splitRuns C (dropWhile C cs)
      else (case splitRuns C cs of [] \<Rightarrow> [[c]] | p # ps \<Rightarrow> (c # p) # ps))"
  by pat_completeness auto
termination
  by (relation "measure (\<lambda>(C, s). length s)") (auto simp: le_imp_less_Suc length_dropWhile_le)

text \<open>\<open>s.split(d)\<close> for a one-character string \<open>d\<close>: a piece ends at every \<open>d\<close>.\<close>

fun splitChar :: "cu \<Rightarrow> jsstring \<Rightarrow> jsstring list" where
  "splitChar d [] = [[]]"
| "splitChar d (c # cs) =
     (if c = d then [] # splitChar d cs
      else (case splitChar d cs of [] \<Rightarrow> [[c]] | p # ps \<Rightarrow> (c # p) # ps))"

text \<open>\<open>xs.filter(Boolean)\<close> on an array of strings keeps the non-empty ones.\<close>

definition filterBoolean :: "jsstring list \<Rightarrow> jsstring list" where
  "filterBoolean xs = filter (\<lambda>p. p \<noteq> []) xs"

text \<open>\<open>xs.join(d)\<close>.\<close>

fun join :: "jsstring \<Rightarrow> jsstring list \<Rightarrow> jsstring" where
  "join d [] = []"
| "join d [x] = x"
| "join d (x # y # ys) = x @ d @ join d (y # ys)"

text \<open>\<open>s.charAt(0)\<close> is the empty string when \<open>s\<close> is empty; \<open>s.slice(1)\<close> likewise.\<close>

definition charAt0 :: "jsstring \<Rightarrow> jsstring" where
  "charAt0 s = take 1 s"

definition slice1 :: "jsstring \<Rightarrow> jsstring" where
  "slice1 s = drop 1 s"

subsection \<open>Numbers and their \<open>String\<close> form\<close>

text \<open>
  \<open>String(x)\<close> of a number \<open>x\<close> is \<open>Number::toString\<close> of the language definition. It prints
  \<open>NaN\<close>, \<open>0\<close> (for both zeros) and \<open>Infinity\<close> by name, a minus sign for a negative number,
  and a finite non-zero number from its shortest decimal digits: integers \<open>s\<close>, \<open>k\<close>, \<open>n\<close> with
  \<open>k\<close> the number of digits of \<open>s\<close>, as few as possible, and \<open>s * 10 ^ (n - k)\<close> the number
  (the decimal that rounds to it). A number is modelled by what this function reads:
  \<open>Finite neg s n\<close> is the number with sign \<open>neg\<close>, digits \<open>s\<close> and exponent \<open>n\<close>. So \<open>123\<close> is
  \<open>Finite False 123 3\<close>, \<open>1.5\<close> is \<open>Finite False 15 1\<close> and \<open>1e21\<close> is \<open>Finite False 1 22\<close>.
  Which digits a binary floating-point value has is not modelled; the theorems hold for
  every choice of them.
\<close>

datatype jsnumber = NaN | PosInfinity | NegInfinity | Zero | Finite bool nat int

text \<open>The decimal digits of a natural number.\<close>

fun digitsOf :: "nat \<Rightarrow> jsstring" where
  "digitsOf n = (if n < 10 then [48 + n] else digitsOf (n div 10) @ [48 + n mod 10])"

declare digitsOf.simps [simp del]

text \<open>
  The digits of a finite positive number with digits \<open>s\<close> and exponent \<open>n\<close>: plain digits
  with zeros appended for \<open>k \<le> n \<le> 21\<close>, a decimal point inside the digits for
  \<open>0 < n < k\<close>, \<open>0.\<close> and zeros before the digits for \<open>-5 \<le> n \<le> 0\<close>, and the exponent form
  \<open>d.ddde+x\<close> otherwise.
\<close>

definition finiteToString :: "nat \<Rightarrow> int \<Rightarrow> jsstring" where
  "finiteToString s n =
     (let ds = digitsOf s; k = int (length ds) in
      if - 5 \<le> n \<and> n \<le> 21 then
        (if k \<le> n then ds @ replicate (nat (n - k)) 48
         else if 0 < n then take (nat n) ds @ [46] @ drop (nat n) ds
         else [48, 46] @ replicate (nat (- n)) 48 @ ds)
      else
        (let exponentSign = (if n < 0 then 45 else 43);
             e = digitsOf (nat (abs (n - 1)))
         in if k = 1 then ds @ [101] @ [exponentSign] @ e
            else take 1 ds @ [46] @ drop 1 ds @ [101] @ [exponentSign] @ e))"

fun numberToString :: "jsnumber \<Rightarrow> jsstring" where
  "numberToString NaN = js ''NaN''"
| "numberToString Zero = js ''0''"
| "numberToString PosInfinity = js ''Infinity''"
| "numberToString NegInfinity = js ''-Infinity''"
| "numberToString (Finite neg s n) = (if neg then [45] else []) @ finiteToString s n"

text \<open>
  The number whose value is the natural number \<open>i\<close>, for \<open>i\<close> up to \<open>2 ^ 53\<close>: in that range
  every integer is a number, and its shortest digits are its own digits without the
  zeros at the end.
\<close>

fun stripZeros :: "nat \<Rightarrow> nat" where
  "stripZeros i = (if i \<noteq> 0 \<and> i mod 10 = 0 then stripZeros (i div 10) else i)"

declare stripZeros.simps [simp del]

definition natNumber :: "nat \<Rightarrow> jsnumber" where
  "natNumber i =
     (if i = 0 then Zero else Finite False (stripZeros i) (int (length (digitsOf i))))"

subsection \<open>Values and errors\<close>

text \<open>
  The values a caller can pass. \<open>Obj\<close> stands for every value whose \<open>typeof\<close> is neither
  \<open>'string'\<close>, \<open>'number'\<close>, \<open>'boolean'\<close> nor \<open>'undefined'\<close>, other than \<open>null\<close>.
\<close>

datatype jsval = Undefined | Null | Bool bool | Num jsnumber | Str jsstring | Obj

fun typeof :: "jsval \<Rightarrow> string" where
  "typeof Undefined = ''undefined''"
| "typeof Null = ''object''"
| "typeof (Bool b) = ''boolean''"
| "typeof (Num n) = ''number''"
| "typeof (Str s) = ''string''"
| "typeof Obj = ''object''"

datatype error = TypeError string | Error string

section \<open>\<open>src/refined_prompt.js\<close>\<close>

subsection \<open>\<open>toCamelCase\<close>\<close>

text \<open>The function mapped over \<open>segments.slice(1)\<close>.\<close>

definition capitalize :: "unicode \<Rightarrow> jsstring \<Rightarrow> jsstring" where
  "capitalize u seg =
     (let lower = toLowerCase u seg in toUpperCase u (charAt0 lower) @ slice1 lower)"

text \<open>The body of \<open>toCamelCase\<close> once \<open>input\<close> is a string.\<close>

definition camelCase :: "unicode \<Rightarrow> jsstring \<Rightarrow> jsstring" where
  "camelCase u input =
     (let str = trim input in
      if str = [] then []
      else if \<not> test isSeparator str then
        (if test isLetter str \<and> str = toUpperCase u str then toLowerCase u str else str)
      else
        (case filterBoolean (splitRuns isSeparator str) of
           [] \<Rightarrow> []
         | seg0 # segs \<Rightarrow>
             (let first = toLowerCase u seg0; rest = map (capitalize u) segs
              in join [] (first # rest))))"

text \<open>
  A number is replaced by \<open>String(input)\<close>; after that, a value that is not a string is a
  \<open>TypeError\<close>.
\<close>

fun toCamelCase :: "unicode \<Rightarrow> jsval \<Rightarrow> error + jsstring" where
  "toCamelCase u (Num n) = Inr (camelCase u (numberToString n))"
| "toCamelCase u (Str s) = Inr (camelCase u s)"
| "toCamelCase u _ = Inl (TypeError ''toCamelCase expects a string or number'')"

subsection \<open>\<open>toDotCase\<close>\<close>

text \<open>
  \<open>str.replace(/([a-z0-9])([A-Z])/g, '$1.$2')\<close>: the scan goes on after the two characters
  of a match.
\<close>

fun replaceBoundaries :: "jsstring \<Rightarrow> jsstring" where
  "replaceBoundaries (a # b # cs) =
     (if isLowerAlnum a \<and> isUpperAZ b then a # dot # b # replaceBoundaries cs
      else a # replaceBoundaries (b # cs))"
| "replaceBoundaries cs = cs"

text \<open>\<open>s.replace(/^\.+|\.+$/g, '')\<close>: the run of dots at the start and the one at the end go.\<close>

definition stripDots :: "jsstring \<Rightarrow> jsstring" where
  "stripDots s = rev (dropWhile isDot (rev (dropWhile isDot s)))"

text \<open>The steps of \<open>toDotCase\<close> after the camelCase boundaries are broken.\<close>

definition dotNormalize :: "unicode \<Rightarrow> jsstring \<Rightarrow> jsstring" where
  "dotNormalize u s1 =
     (let s2 = replaceRuns notAlnumDot [dot] s1;
          s3 = stripDots (replaceRuns isDot [dot] s2)
      in if s3 = [] then []
         else join [dot] (map (toLowerCase u) (filterBoolean (splitChar dot s3))))"

text \<open>The body of \<open>toDotCase\<close> once \<open>input\<close> is a string.\<close>

definition dotCase :: "unicode \<Rightarrow> jsstring \<Rightarrow> jsstring" where
  "dotCase u input =
     (let str = trim input in
      if str = [] then [] else dotNormalize u (replaceBoundaries str))"

fun toDotCase :: "unicode \<Rightarrow> jsval \<Rightarrow> error + jsstring" where
  "toDotCase u (Num n) = Inr (dotCase u (numberToString n))"
| "toDotCase u (Str s) = Inr (dotCase u s)"
| "toDotCase u _ = Inl (TypeError ''toDotCase expects a string or number'')"

section \<open>\<open>src/chain_prompt.js\<close>\<close>

text \<open>The normalisation of the trimmed input, before the check for an alphanumeric character.\<close>

definition kebabOf :: "unicode \<Rightarrow> jsstring \<Rightarrow> jsstring" where
  "kebabOf u trimmed =
     (let k1 = replaceRuns isWhiteSpace [hyphen] trimmed;
          k2 = replaceRuns notAlnumHyphen [] k1;
          k3 = replaceRuns isHyphen [hyphen] k2
      in toLowerCase u k3)"

text \<open>
  \<open>null\<close> is returned as it is, before the type check; a number is not converted here.
\<close>

fun toKebabCase :: "unicode \<Rightarrow> jsval \<Rightarrow> error + jsval" where
  "toKebabCase u Null = Inr Null"
| "toKebabCase u (Str input) =
     (let trimmed = trim input in
      if trimmed = [] then Inr (Str [])
      else
        (let kebab = kebabOf u trimmed in
         if \<not> test isLowerAlnum kebab
         then Inl (Error ''Input cannot be converted to a valid kebab-case string'')
         else Inr (Str kebab)))"
| "toKebabCase u _ = Inl (TypeError ''Input must be a string or null'')"

section \<open>\<open>src/unnamed/part_000\<close> (few_shot_prompt.js)\<close>

text \<open>This \<open>toCamelCase\<close> never throws: it returns the empty string for a non-string.\<close>

definition capitalizePart :: "unicode \<Rightarrow> jsstring \<Rightarrow> jsstring" where
  "capitalizePart u p = toUpperCase u (charAt0 p) @ toLowerCase u (slice1 p)"

fun toCamelCase_fewshot :: "unicode \<Rightarrow> jsval \<Rightarrow> jsstring" where
  "toCamelCase_fewshot u (Str input) =
     (case filterBoolean (splitRuns notAlnum (trim input)) of
        [] \<Rightarrow> []
      | p0 # ps \<Rightarrow>
          (let first = toLowerCase u p0; rest = join [] (map (capitalizePart u) ps)
           in first @ rest))"
| "toCamelCase_fewshot u _ = []"

section \<open>Notions used in the properties\<close>

text \<open>
  The normalisation of \<open>toKebabCase\<close> as the specification words it: whitespace runs to
  hyphens, characters other than letters, digits and hyphens deleted, hyphen runs
  collapsed, lowercased.
\<close>

definition kebabNormalized :: "jsstring \<Rightarrow> jsstring" where
  "kebabNormalized t =
     map asciiLower
       (replaceRuns isHyphen [hyphen]
          (filter (\<lambda>c. isAlnum c \<or> c = hyphen)
             (replaceRuns isWhiteSpace [hyphen] t)))"

text \<open>
  The characters of the trimmed input that \<open>toKebabCase\<close> does not delete: letters,
  digits and hyphens, which it keeps, and whitespace, which it turns into a hyphen
  (\<open>hyphenFor\<close>).
\<close>

definition kebabRelevant :: "cu \<Rightarrow> bool" where
  "kebabRelevant c = (isAlnum c \<or> c = hyphen \<or> isWhiteSpace c)"

definition hyphenFor :: "cu \<Rightarrow> cu" where
  "hyphenFor c = (if isWhiteSpace c then hyphen else c)"

text \<open>No two neighbours of a string are both the character \<open>h\<close>.\<close>

fun noDouble :: "cu \<Rightarrow> jsstring \<Rightarrow> bool" where
  "noDouble h (a # b # cs) = ((a \<noteq> h \<or> b \<noteq> h) \<and> noDouble h (b # cs))"
| "noDouble h cs = True"

text \<open>
  A dot at every boundary, as the specification words it: after each position of the
  string whose character is a lowercase letter or a digit and whose successor is an
  uppercase letter. \<open>insertDots\<close> is the same by recursion, looking at every position.
\<close>

fun insertDots :: "jsstring \<Rightarrow> jsstring" where
  "insertDots (a # b # cs) =
     (if isLowerAlnum a \<and> isUpperAZ b then a # dot # insertDots (b # cs)
      else a # insertDots (b # cs))"
| "insertDots cs = cs"

definition insertBoundaryDots :: "jsstring \<Rightarrow> jsstring" where
  "insertBoundaryDots s =
     concat (map (\<lambda>i. if Suc i < length s \<and> isLowerAlnum (s ! i) \<and> isUpperAZ (s ! Suc i)
                      then [s ! i, dot] else [s ! i])
               [0..<length s])"

text \<open>
  The segments of a string, as the specification words them: the maximal runs of
  characters that are not separators, in order.
\<close>

function segmentsOf :: "(cu \<Rightarrow> bool) \<Rightarrow> jsstring \<Rightarrow> jsstring list" where
  "segmentsOf C s =
     (case dropWhile C s of
        [] \<Rightarrow> []
      | a # w \<Rightarrow> takeWhile (\<lambda>c. \<not> C c) (a # w) # segmentsOf C (dropWhile (\<lambda>c. \<not> C c) (a # w)))"
  by pat_completeness auto
termination
proof (relation "measure (\<lambda>(C, s). length s)")
  show "wf (measure (\<lambda>(C, s). length s))" by simp
next
  fix C :: "cu \<Rightarrow> bool" and s a w
  assume e: "dropWhile C s = a # w"
  then have "\<not> C a" by (metis hd_dropWhile list.sel(1) list.distinct(1))
  then have "length (dropWhile (\<lambda>c. \<not> C c) (a # w)) \<le> length w"
    by (simp add: length_dropWhile_le)
  moreover have "length (a # w) \<le> length s"
    using e length_dropWhile_le [of C s] by simp
  ultimately show "((C, dropWhile (\<lambda>c. \<not> C c) (a # w)), (C, s)) \<in> measure (\<lambda>(C, s). length s)"
    by simp
qed

declare segmentsOf.simps [simp del]

text \<open>
  The camelCase of a list of segments, as the specification words it: the first segment
  lowercased, each later one lowercased with its first character uppercased, all
  concatenated.
\<close>

definition camelOfSegments :: "unicode \<Rightarrow> jsstring list \<Rightarrow> jsstring" where
  "camelOfSegments u segs =
     (case segs of
        [] \<Rightarrow> []
      | w # ws \<Rightarrow>
          toLowerCase u w
            @ concat (map (\<lambda>x. toUpperCase u (take 1 (toLowerCase u x)) @ drop 1 (toLowerCase u x)) ws))"

section \<open>Properties\<close>

lemmas charClass_defs = isSeparator_def isWhiteSpace_def underscore_def hyphen_def dot_def
  isAscii_def isUpperAZ_def isLowerAZ_def isDigit_def isLetter_def isAlnum_def
  isLowerAlnum_def isHyphen_def isDot_def notAlnum_def notAlnumDot_def notAlnumHyphen_def

lemmas stringOp_defs = js_def trim_def test_def filterBoolean_def toLowerCase_def
  toUpperCase_def charAt0_def slice1_def asciiUpper_def asciiLower_def stripDots_def

subsection \<open>Trimming\<close>

lemma dropWhile_none: "\<forall>c\<in>set s. \<not> P c \<Longrightarrow> dropWhile P s = s"
  by (cases s) auto

lemma trim_no_whitespace: "\<forall>c\<in>set s. \<not> isWhiteSpace c \<Longrightarrow> trim s = s"
  by (simp add: trim_def dropWhile_none)

subsection \<open>\<open>toCamelCase\<close> without separators\<close>

text \<open>
  C4. For a string whose trimmed form is non-empty and has no whitespace, underscore or
  hyphen, \<open>toCamelCase\<close> returns the lowercase form when the trimmed string has an ASCII
  letter and equals its own uppercase form, and the trimmed string unchanged otherwise;
  \<open>'SCREAM'\<close> gives \<open>'scream'\<close> and \<open>'alreadyCamel'\<close> gives \<open>'alreadyCamel'\<close>.
\<close>

theorem toCamelCase_no_separator:
  "(trim s \<noteq> [] \<and> (\<forall>c\<in>set (trim s). \<not> isWhiteSpace c \<and> c \<noteq> underscore \<and> c \<noteq> hyphen) \<longrightarrow>
      toCamelCase u (Str s) =
        Inr (if (\<exists>c\<in>set (trim s). isLetter c) \<and> trim s = toUpperCase u (trim s)
             then toLowerCase u (trim s) else trim s))
   \<and> toCamelCase u (Str (js ''SCREAM'')) = Inr (js ''scream'')
   \<and> toCamelCase u (Str (js ''alreadyCamel'')) = Inr (js ''alreadyCamel'')"
proof (intro conjI impI)
  assume h: "trim s \<noteq> [] \<and> (\<forall>c\<in>set (trim s). \<not> isWhiteSpace c \<and> c \<noteq> underscore \<and> c \<noteq> hyphen)"
  then have "\<not> test isSeparator (trim s)"
    by (auto simp: test_def list_ex_iff isSeparator_def)
  with h show "toCamelCase u (Str s) =
        Inr (if (\<exists>c\<in>set (trim s). isLetter c) \<and> trim s = toUpperCase u (trim s)
             then toLowerCase u (trim s) else trim s)"
    by (simp add: camelCase_def test_def list_ex_iff)
next
  show "toCamelCase u (Str (js ''SCREAM'')) = Inr (js ''scream'')"
    by (simp add: camelCase_def stringOp_defs charClass_defs)
next
  show "toCamelCase u (Str (js ''alreadyCamel'')) = Inr (js ''alreadyCamel'')"
    by (simp add: camelCase_def stringOp_defs charClass_defs)
qed

theorem toCamelCase_no_separator_witness:
  "trim (js '' SCREAM '') \<noteq> []
   \<and> list_all (\<lambda>c. \<not> isWhiteSpace c \<and> c \<noteq> underscore \<and> c \<noteq> hyphen) (trim (js '' SCREAM ''))
   \<and> toCamelCase asciiOnly (Str (js '' SCREAM '')) = Inr (js ''scream'')"
  using toCamelCase_no_separator [of "js '' SCREAM ''" asciiOnly]
  by (simp add: stringOp_defs charClass_defs)

text \<open>
  C8. When \<open>toCamelCase\<close> returns \<open>y\<close>, and \<open>y\<close> has no whitespace, underscore or hyphen
  and is not a string with a letter that equals its own uppercase form, then
  \<open>toCamelCase\<close> of \<open>y\<close> is \<open>y\<close>.
\<close>

theorem toCamelCase_idempotent:
  assumes "toCamelCase u x = Inr y"
    and "\<forall>c\<in>set y. \<not> isWhiteSpace c \<and> c \<noteq> underscore \<and> c \<noteq> hyphen"
    and "\<not> ((\<exists>c\<in>set y. isLetter c) \<and> y = toUpperCase u y)"
  shows "toCamelCase u (Str y) = Inr y"
proof -
  from assms(2) have t: "trim y = y"
    by (simp add: trim_no_whitespace)
  from assms(2) have "\<not> test isSeparator y"
    by (auto simp: test_def list_ex_iff isSeparator_def)
  with t assms(3) show ?thesis
    by (auto simp: camelCase_def test_def list_ex_iff)
qed

theorem toCamelCase_idempotent_witness:
  "toCamelCase asciiOnly (Str (js ''first name'')) = Inr (js ''firstName'')
   \<and> list_all (\<lambda>c. \<not> isWhiteSpace c \<and> c \<noteq> underscore \<and> c \<noteq> hyphen) (js ''firstName'')
   \<and> js ''firstName'' \<noteq> toUpperCase asciiOnly (js ''firstName'')
   \<and> toCamelCase asciiOnly (Str (js ''firstName'')) = Inr (js ''firstName'')"
proof -
  have a: "toCamelCase asciiOnly (Str (js ''first name'')) = Inr (js ''firstName'')"
    by (simp add: camelCase_def capitalize_def stringOp_defs charClass_defs)
  have b: "\<forall>c\<in>set (js ''firstName''). \<not> isWhiteSpace c \<and> c \<noteq> underscore \<and> c \<noteq> hyphen"
    by (simp add: js_def charClass_defs)
  have c: "js ''firstName'' \<noteq> toUpperCase asciiOnly (js ''firstName'')"
    by (simp add: stringOp_defs charClass_defs)
  from c have c': "\<not> ((\<exists>c\<in>set (js ''firstName''). isLetter c)
      \<and> js ''firstName'' = toUpperCase asciiOnly (js ''firstName''))"
    by simp
  from toCamelCase_idempotent [OF a b c'] a b c show ?thesis
    by (simp add: list_all_iff)
qed

subsection \<open>Runs of a character class\<close>

lemma filter_dropWhile_not: "filter (\<lambda>c. \<not> C c) (dropWhile C s) = filter (\<lambda>c. \<not> C c) s"
  by (induction s) auto

lemma replaceRuns_delete: "replaceRuns C [] s = filter (\<lambda>c. \<not> C c) s"
  by (induction C "[]::jsstring" s rule: replaceRuns.induct) (auto simp: filter_dropWhile_not)

lemma set_replaceRuns:
  "set (replaceRuns C r s) = (if \<exists>c\<in>set s. C c then set r else {}) \<union> {c \<in> set s. \<not> C c}"
proof (induction C r s rule: replaceRuns.induct)
  case (1 C r)
  show ?case by simp
next
  case (2 C r c cs)
  have k: "{x \<in> set (dropWhile C cs). \<not> C x} = {x \<in> set cs. \<not> C x}"
    using filter_dropWhile_not [of C cs] by (metis set_filter)
  show ?case
  proof (cases "C c")
    case True
    with 2 k show ?thesis by auto
  next
    case False
    with 2 show ?thesis by auto
  qed
qed

lemma noDouble_Cons: "noDouble h (a # s) = ((s = [] \<or> a \<noteq> h \<or> hd s \<noteq> h) \<and> noDouble h s)"
  by (cases s) auto

lemma hd_replaceRuns_dropWhile:
  "replaceRuns C r (dropWhile C s) = [] \<or> \<not> C (hd (replaceRuns C r (dropWhile C s)))"
proof (cases "dropWhile C s")
  case Nil
  then have "replaceRuns C r (dropWhile C s) = []" by (simp only: replaceRuns.simps)
  then show ?thesis by blast
next
  case (Cons x xs)
  then have "\<not> C x" by (metis hd_dropWhile list.sel(1) list.distinct(1))
  with Cons show ?thesis by simp
qed

lemma noDouble_collapse: "noDouble h (replaceRuns (\<lambda>c. c = h) [h] s)"
proof (induction "\<lambda>c::cu. c = h" "[h]" s rule: replaceRuns.induct)
  case 1
  show ?case by simp
next
  case (2 c cs)
  show ?case
  proof (cases "c = h")
    case True
    with 2 hd_replaceRuns_dropWhile [of "\<lambda>c. c = h" "[h]" cs] show ?thesis
      by (auto simp: noDouble_Cons)
  next
    case False
    with 2 show ?thesis by (auto simp: noDouble_Cons)
  qed
qed

lemma noDouble_map: "(\<And>c. (f c = h) = (c = h)) \<Longrightarrow> noDouble h (map f s) = noDouble h s"
  by (induction h s rule: noDouble.induct) auto

lemma noDouble_nth:
  "noDouble h s = (\<forall>i. Suc i < length s \<longrightarrow> \<not> (s ! i = h \<and> s ! Suc i = h))"
proof (induction h s rule: noDouble.induct)
  case (1 h a b cs)
  have "(\<forall>i. Suc i < length (a # b # cs) \<longrightarrow> \<not> ((a # b # cs) ! i = h \<and> (a # b # cs) ! Suc i = h))
      = ((a \<noteq> h \<or> b \<noteq> h) \<and> (\<forall>i. Suc i < length (b # cs) \<longrightarrow> \<not> ((b # cs) ! i = h \<and> (b # cs) ! Suc i = h)))"
    (is "?L = ?R")
  proof
    assume l: ?L
    from l [rule_format, of 0] have "a \<noteq> h \<or> b \<noteq> h" by auto
    moreover have "\<forall>i. Suc i < length (b # cs) \<longrightarrow> \<not> ((b # cs) ! i = h \<and> (b # cs) ! Suc i = h)"
    proof (intro allI impI)
      fix i assume "Suc i < length (b # cs)"
      with l [rule_format, of "Suc i"] show "\<not> ((b # cs) ! i = h \<and> (b # cs) ! Suc i = h)" by auto
    qed
    ultimately show ?R by blast
  next
    assume r: ?R
    show ?L
    proof (intro allI impI)
      fix i assume i: "Suc i < length (a # b # cs)"
      show "\<not> ((a # b # cs) ! i = h \<and> (a # b # cs) ! Suc i = h)"
      proof (cases i)
        case 0
        with r show ?thesis by auto
      next
        case (Suc j)
        with i r show ?thesis by auto
      qed
    qed
  qed
  with 1 show ?case by simp
qed auto


subsection \<open>\<open>toKebabCase\<close>\<close>

lemma replaceRuns_keeps:
  assumes "\<And>c. P c \<Longrightarrow> \<not> C c" and "\<And>c. c \<in> set r \<Longrightarrow> \<not> P c"
  shows "{c \<in> set (replaceRuns C r s). P c} = {c \<in> set s. P c}"
  using assms by (auto simp: set_replaceRuns split: if_splits)

lemma alnum_not_whitespace: "isAlnum c \<Longrightarrow> \<not> isWhiteSpace c"
  by (auto simp: charClass_defs)

lemma hyphen_not_alnum: "\<not> isAlnum hyphen"
  by (simp add: charClass_defs)

lemma alnum_ascii: "isAlnum c \<Longrightarrow> isAscii c"
  by (auto simp: charClass_defs)

lemma asciiLower_alnum: "isLowerAlnum (asciiLower c) = isAlnum c"
  by (auto simp: asciiLower_def charClass_defs)

lemma asciiLower_hyphen: "(asciiLower c = hyphen) = (c = hyphen)"
  by (auto simp: asciiLower_def charClass_defs)

lemma kebab_collapsed_set:
  "set (replaceRuns isHyphen [hyphen]
          (filter (\<lambda>c. isAlnum c \<or> c = hyphen) (replaceRuns isWhiteSpace [hyphen] t)))
     \<subseteq> {c. isAlnum c \<or> c = hyphen}"
  by (auto simp: set_replaceRuns isHyphen_def split: if_splits)

lemma kebabOf_normalized: "kebabOf u t = kebabNormalized t"
proof -
  let ?k3 = "replaceRuns isHyphen [hyphen]
          (filter (\<lambda>c. isAlnum c \<or> c = hyphen) (replaceRuns isWhiteSpace [hyphen] t))"
  have "\<forall>c\<in>set ?k3. isAscii c"
    using kebab_collapsed_set [of t] alnum_ascii by (auto simp: isAscii_def hyphen_def)
  then have "list_all isAscii ?k3" by (simp add: list_all_iff)
  then show ?thesis
    by (simp add: kebabOf_def kebabNormalized_def replaceRuns_delete notAlnumHyphen_def
        toLowerCase_def)
qed

lemma kebabNormalized_chars: "c \<in> set (kebabNormalized t) \<Longrightarrow> isLowerAlnum c \<or> c = hyphen"
proof -
  assume "c \<in> set (kebabNormalized t)"
  then obtain d where d: "c = asciiLower d" "isAlnum d \<or> d = hyphen"
    using kebab_collapsed_set [of t] by (auto simp: kebabNormalized_def)
  then show ?thesis by (auto simp: asciiLower_alnum asciiLower_hyphen)
qed

lemma kebabNormalized_alnum:
  "(\<exists>c\<in>set (kebabNormalized t). isLowerAlnum c) = (\<exists>c\<in>set t. isAlnum c)"
proof -
  let ?k1 = "replaceRuns isWhiteSpace [hyphen] t"
  let ?k2 = "filter (\<lambda>c. isAlnum c \<or> c = hyphen) ?k1"
  let ?k3 = "replaceRuns isHyphen [hyphen] ?k2"
  have 1: "{c \<in> set ?k1. isAlnum c} = {c \<in> set t. isAlnum c}"
    by (rule replaceRuns_keeps) (auto simp: alnum_not_whitespace hyphen_not_alnum)
  have 2: "{c \<in> set ?k2. isAlnum c} = {c \<in> set ?k1. isAlnum c}"
    by auto
  have 3: "{c \<in> set ?k3. isAlnum c} = {c \<in> set ?k2. isAlnum c}"
    by (rule replaceRuns_keeps) (auto simp: isHyphen_def hyphen_not_alnum)
  have "(\<exists>c\<in>set (kebabNormalized t). isLowerAlnum c) = (\<exists>c\<in>set ?k3. isAlnum c)"
    by (simp add: kebabNormalized_def asciiLower_alnum)
  also have "\<dots> = ({c \<in> set ?k3. isAlnum c} \<noteq> {})" by blast
  also have "\<dots> = ({c \<in> set t. isAlnum c} \<noteq> {})" using 1 2 3 by simp
  also have "\<dots> = (\<exists>c\<in>set t. isAlnum c)" by blast
  finally show ?thesis .
qed

lemma kebabNormalized_noDouble: "noDouble hyphen (kebabNormalized t)"
proof -
  have "isHyphen = (\<lambda>c. c = hyphen)" by (simp add: isHyphen_def fun_eq_iff)
  then have "noDouble hyphen (replaceRuns isHyphen [hyphen] k)" for k
    using noDouble_collapse [of hyphen k] by simp
  then show ?thesis
    by (simp add: kebabNormalized_def noDouble_map asciiLower_hyphen)
qed

lemma lowerAlnum_not_upper: "isLowerAlnum c \<or> c = hyphen \<Longrightarrow> \<not> isUpperAZ c"
  by (auto simp: charClass_defs)

text \<open>
  C3. \<open>toKebabCase\<close> returns \<open>null\<close> exactly for \<open>null\<close>, a \<open>TypeError\<close> exactly for an
  input that is neither \<open>null\<close> nor a string, and, for a string whose trimmed form is not
  empty, an error exactly when the normalised string has no ASCII letter and no digit; in
  every other case it returns a string.
\<close>

theorem toKebabCase_results:
  "(toKebabCase u v = Inr Null) = (v = Null)
   \<and> ((\<exists>m. toKebabCase u v = Inl (TypeError m)) = (v \<noteq> Null \<and> typeof v \<noteq> ''string''))
   \<and> (trim s \<noteq> [] \<longrightarrow>
        ((\<exists>m. toKebabCase u (Str s) = Inl (Error m))
          = (\<not> (\<exists>c\<in>set (kebabNormalized (trim s)). isLetter c \<or> isDigit c))))
   \<and> (trim s = [] \<or> (\<exists>c\<in>set (kebabNormalized (trim s)). isLetter c \<or> isDigit c) \<longrightarrow>
        (\<exists>r. toKebabCase u (Str s) = Inr (Str r)))"
proof -
  have a: "(toKebabCase u v = Inr Null) = (v = Null)"
    by (cases v) (simp_all add: Let_def)
  have b: "(\<exists>m. toKebabCase u v = Inl (TypeError m)) = (v \<noteq> Null \<and> typeof v \<noteq> ''string'')"
    by (cases v) (simp_all add: Let_def)
  have k: "test isLowerAlnum (kebabOf u (trim s))
      = (\<exists>c\<in>set (kebabNormalized (trim s)). isLetter c \<or> isDigit c)"
    using kebabNormalized_chars [of _ "trim s"] lowerAlnum_not_upper
    by (auto simp: test_def list_ex_iff kebabOf_normalized isLowerAlnum_def isLetter_def)
  have c: "trim s \<noteq> [] \<longrightarrow>
        ((\<exists>m. toKebabCase u (Str s) = Inl (Error m))
          = (\<not> (\<exists>c\<in>set (kebabNormalized (trim s)). isLetter c \<or> isDigit c)))"
    using k by (simp add: Let_def)
  have d: "trim s = [] \<or> (\<exists>c\<in>set (kebabNormalized (trim s)). isLetter c \<or> isDigit c) \<longrightarrow>
        (\<exists>r. toKebabCase u (Str s) = Inr (Str r))"
    using k by (simp add: Let_def)
  from a b c d show ?thesis by blast
qed


theorem toKebabCase_results_witness:
  "trim (js ''a b'') \<noteq> []
   \<and> list_ex (\<lambda>c. isLetter c \<or> isDigit c) (kebabNormalized (trim (js ''a b'')))
   \<and> toKebabCase asciiOnly (Str (js ''a b'')) = Inr (Str (js ''a-b''))
   \<and> (\<nexists>m. toKebabCase asciiOnly (Str (js ''a b'')) = Inl (Error m))
   \<and> Num (natNumber 5) \<noteq> Null \<and> typeof (Num (natNumber 5)) \<noteq> ''string''
   \<and> (\<exists>m. toKebabCase asciiOnly (Num (natNumber 5)) = Inl (TypeError m))"
proof -
  have a: "trim (js ''a b'') \<noteq> []"
    by (simp add: stringOp_defs charClass_defs)
  have b: "\<exists>c\<in>set (kebabNormalized (trim (js ''a b''))). isLetter c \<or> isDigit c"
    by (simp add: kebabNormalized_def stringOp_defs charClass_defs)
  have c: "toKebabCase asciiOnly (Str (js ''a b'')) = Inr (Str (js ''a-b''))"
    by (simp add: kebabOf_def stringOp_defs charClass_defs)
  have d: "Num (natNumber 5) \<noteq> Null \<and> typeof (Num (natNumber 5)) \<noteq> ''string''"
    by simp
  note th = toKebabCase_results [of asciiOnly "Num (natNumber 5)" "js ''a b''"]
  from th a b have e: "\<nexists>m. toKebabCase asciiOnly (Str (js ''a b'')) = Inl (Error m)"
    by blast
  from th d have f: "\<exists>m. toKebabCase asciiOnly (Num (natNumber 5)) = Inl (TypeError m)"
    by blast
  from a b c d e f show ?thesis
    unfolding list_ex_iff by blast
qed

subsection \<open>\<open>toDotCase\<close>\<close>

lemma set_replaceBoundaries: "set (replaceBoundaries s) \<subseteq> insert dot (set s)"
  by (induction s rule: replaceBoundaries.induct) auto

lemma stripDots_all_dots: "set s \<subseteq> {dot} \<Longrightarrow> stripDots s = []"
proof -
  assume "set s \<subseteq> {dot}"
  then have "dropWhile isDot s = []" by (auto simp: isDot_def)
  then show ?thesis by (simp add: stripDots_def del: dropWhile_eq_Nil_conv)
qed

lemma dot_not_alnum: "\<not> isAlnum dot"
  by (simp add: charClass_defs)

lemma dotNormalize_no_alnum:
  assumes "\<forall>c\<in>set s1. \<not> isAlnum c"
  shows "dotNormalize u s1 = []"
proof -
  let ?s2 = "replaceRuns notAlnumDot [dot] s1"
  from assms have "set ?s2 \<subseteq> {dot}"
    by (auto simp: set_replaceRuns notAlnumDot_def split: if_splits)
  then have "set (replaceRuns isDot [dot] ?s2) \<subseteq> {dot}"
    by (auto simp: set_replaceRuns split: if_splits)
  then have "stripDots (replaceRuns isDot [dot] ?s2) = []"
    by (rule stripDots_all_dots)
  then show ?thesis by (simp add: dotNormalize_def)
qed

lemma dotCase_no_alnum:
  assumes "\<forall>c\<in>set s. \<not> isAlnum c"
  shows "dotCase u s = []"
proof -
  have "set (trim s) \<subseteq> set s"
    by (auto simp: trim_def dest!: set_dropWhileD)
  with assms have "\<forall>c\<in>set (replaceBoundaries (trim s)). \<not> isAlnum c"
    using set_replaceBoundaries [of "trim s"] dot_not_alnum by auto
  then show ?thesis by (simp add: dotCase_def Let_def dotNormalize_no_alnum)
qed

lemma splitChar_nonempty: "splitChar d s \<noteq> []"
  by (induction s) (auto split: list.splits)

lemma splitChar_pieces: "p \<in> set (splitChar d s) \<Longrightarrow> set p \<subseteq> set s - {d}"
proof (induction s arbitrary: p)
  case Nil
  then show ?case by simp
next
  case (Cons c cs)
  show ?case
  proof (cases "c = d")
    case True
    with Cons show ?thesis by auto
  next
    case False
    obtain q qs where q: "splitChar d cs = q # qs"
      using splitChar_nonempty [of d cs] by (cases "splitChar d cs") auto
    with False Cons.prems have "p = c # q \<or> p \<in> set qs" by auto
    then show ?thesis
    proof
      assume "p = c # q"
      with Cons.IH [of q] q False show ?thesis by auto
    next
      assume "p \<in> set qs"
      with Cons.IH [of p] q show ?thesis by auto
    qed
  qed
qed

lemma noDouble_append_other:
  "\<forall>c\<in>set x. c \<noteq> h \<Longrightarrow> x \<noteq> [] \<Longrightarrow> noDouble h (x @ ys) = noDouble h ys"
proof (induction x)
  case Nil
  then show ?case by simp
next
  case (Cons a x)
  show ?case
  proof (cases "x = []")
    case True
    with Cons.prems show ?thesis by (simp add: noDouble_Cons)
  next
    case False
    with Cons show ?thesis by (simp add: noDouble_Cons)
  qed
qed

lemma join_segments:
  assumes "\<forall>p\<in>set segs. p \<noteq> [] \<and> (\<forall>c\<in>set p. isLowerAlnum c)" and "segs \<noteq> []"
  shows "join [dot] segs \<noteq> [] \<and> hd (join [dot] segs) \<noteq> dot \<and> last (join [dot] segs) \<noteq> dot
       \<and> noDouble dot (join [dot] segs)
       \<and> (\<forall>c\<in>set (join [dot] segs). isLowerAlnum c \<or> c = dot)"
  using assms
proof (induction "[dot]" segs rule: join.induct)
  case 1
  then show ?case by simp
next
  case (2 x)
  then have x: "x \<noteq> []" "\<forall>c\<in>set x. isLowerAlnum c" by auto
  then have nd: "\<forall>c\<in>set x. c \<noteq> dot" by (auto simp: charClass_defs)
  with x have "hd x \<noteq> dot" "last x \<noteq> dot" by auto
  moreover from nd x have "noDouble dot x"
    using noDouble_append_other [of x dot "[]"] by simp
  ultimately show ?case using x by simp
next
  case (3 x y ys)
  then have x: "x \<noteq> []" "\<forall>c\<in>set x. isLowerAlnum c" by auto
  then have nd: "\<forall>c\<in>set x. c \<noteq> dot" by (auto simp: charClass_defs)
  with x have hx: "hd x \<noteq> dot" by auto
  let ?r = "join [dot] (y # ys)"
  from 3 have ih: "?r \<noteq> [] \<and> hd ?r \<noteq> dot \<and> last ?r \<noteq> dot \<and> noDouble dot ?r
       \<and> (\<forall>c\<in>set ?r. isLowerAlnum c \<or> c = dot)" by simp
  have "noDouble dot (x @ dot # ?r) = noDouble dot (dot # ?r)"
    using noDouble_append_other [OF nd x(1)] by simp
  with ih have "noDouble dot (x @ dot # ?r)" by (simp add: noDouble_Cons)
  with ih x hx show ?case by auto
qed


lemma set_stripDots: "set (stripDots s) \<subseteq> set s"
  by (auto simp: stripDots_def dest!: set_dropWhileD)

lemma asciiLower_lowerAlnum: "isAlnum c \<Longrightarrow> isLowerAlnum (asciiLower c)"
  by (simp add: asciiLower_alnum)

lemma dotNormalize_shape:
  assumes "dotNormalize u s1 \<noteq> []"
  shows "hd (dotNormalize u s1) \<noteq> dot \<and> last (dotNormalize u s1) \<noteq> dot
       \<and> noDouble dot (dotNormalize u s1)
       \<and> (\<forall>c\<in>set (dotNormalize u s1). isLowerAlnum c \<or> c = dot)"
proof -
  let ?s2 = "replaceRuns notAlnumDot [dot] s1"
  let ?s3 = "stripDots (replaceRuns isDot [dot] ?s2)"
  let ?segs = "filterBoolean (splitChar dot ?s3)"
  have "set ?s2 \<subseteq> {c. isAlnum c \<or> c = dot}"
    by (auto simp: set_replaceRuns notAlnumDot_def split: if_splits)
  then have "set (replaceRuns isDot [dot] ?s2) \<subseteq> {c. isAlnum c \<or> c = dot}"
    by (auto simp: set_replaceRuns split: if_splits)
  with set_stripDots have s3: "set ?s3 \<subseteq> {c. isAlnum c \<or> c = dot}"
    by blast
  have segs: "p \<noteq> [] \<and> (\<forall>c\<in>set p. isAlnum c)" if "p \<in> set ?segs" for p
  proof -
    from that have "p \<noteq> []" "p \<in> set (splitChar dot ?s3)"
      by (auto simp: filterBoolean_def)
    with splitChar_pieces [of p dot ?s3] s3 show ?thesis by auto
  qed
  have lower: "toLowerCase u p = map asciiLower p" if "p \<in> set ?segs" for p
  proof -
    from segs [OF that] have "list_all isAscii p"
      by (auto simp: list_all_iff alnum_ascii)
    then show ?thesis by (simp add: toLowerCase_def)
  qed
  have good: "\<forall>q\<in>set (map (toLowerCase u) ?segs). q \<noteq> [] \<and> (\<forall>c\<in>set q. isLowerAlnum c)"
    using segs lower by (auto simp: asciiLower_lowerAlnum)
  from assms have r: "dotNormalize u s1 = join [dot] (map (toLowerCase u) ?segs)"
    by (auto simp: dotNormalize_def Let_def split: if_splits)
  with assms have "map (toLowerCase u) ?segs \<noteq> []" by auto
  from join_segments [OF good this] r show ?thesis by simp
qed

text \<open>
  C7. A non-empty string returned by \<open>toDotCase\<close> has only lowercase ASCII letters,
  digits and dots, no dot at its start, none at its end, and no two dots in a row.
\<close>

theorem toDotCase_output_shape:
  assumes "toDotCase u v = Inr r" and "r \<noteq> []"
  shows "(\<forall>c\<in>set r. isLowerAZ c \<or> isDigit c \<or> c = dot)
       \<and> hd r \<noteq> dot \<and> last r \<noteq> dot
       \<and> (\<forall>i. Suc i < length r \<longrightarrow> \<not> (r ! i = dot \<and> r ! Suc i = dot))"
proof -
  from assms obtain s where "r = dotCase u s"
    by (cases v) auto
  with assms(2) obtain s1 where r: "r = dotNormalize u s1"
    by (auto simp: dotCase_def Let_def split: if_splits)
  with assms(2) dotNormalize_shape [of u s1] show ?thesis
    by (simp add: noDouble_nth isLowerAlnum_def)
qed

theorem toDotCase_output_shape_witness:
  "toDotCase asciiOnly (Str (js ''  multiple   sep '')) = Inr (js ''multiple.sep'')
   \<and> js ''multiple.sep'' \<noteq> []
   \<and> list_all (\<lambda>c. isLowerAZ c \<or> isDigit c \<or> c = dot) (js ''multiple.sep'')
   \<and> hd (js ''multiple.sep'') \<noteq> dot \<and> last (js ''multiple.sep'') \<noteq> dot
   \<and> js ''multiple.sep'' ! 8 = dot \<and> js ''multiple.sep'' ! 9 \<noteq> dot"
proof -
  let ?r = "js ''multiple.sep''"
  have a: "toDotCase asciiOnly (Str (js ''  multiple   sep '')) = Inr ?r"
    by (simp add: dotCase_def dotNormalize_def stringOp_defs charClass_defs)
  have b: "?r \<noteq> []" by (simp add: js_def)
  have d: "?r ! 8 = dot" by (simp add: js_def dot_def)
  note th = toDotCase_output_shape [OF a b]
  from th have 1: "list_all (\<lambda>c. isLowerAZ c \<or> isDigit c \<or> c = dot) ?r"
    unfolding list_all_iff by blast
  from th have "Suc 8 < length ?r \<longrightarrow> \<not> (?r ! 8 = dot \<and> ?r ! Suc 8 = dot)"
    by blast
  with d have 2: "?r ! 9 \<noteq> dot" by (simp add: js_def)
  from th have 3: "hd ?r \<noteq> dot" "last ?r \<noteq> dot" by blast+
  from a b d 1 2 3 show ?thesis by blast
qed

lemma insertDots_after_upper: "\<not> isLowerAlnum b \<Longrightarrow> insertDots (b # cs) = b # insertDots cs"
  by (cases cs) auto

lemma upper_not_lowerAlnum: "isUpperAZ b \<Longrightarrow> \<not> isLowerAlnum b"
  by (auto simp: charClass_defs)

lemma replaceBoundaries_insertDots: "replaceBoundaries s = insertDots s"
  by (induction s rule: replaceBoundaries.induct)
    (auto simp: insertDots_after_upper upper_not_lowerAlnum)

lemma insertBoundaryDots_Cons:
  "insertBoundaryDots (a # s) =
     (if s \<noteq> [] \<and> isLowerAlnum a \<and> isUpperAZ (hd s) then [a, dot] else [a])
       @ insertBoundaryDots s"
proof -
  define F where "F = (\<lambda>(t::jsstring) i.
      if Suc i < length t \<and> isLowerAlnum (t ! i) \<and> isUpperAZ (t ! Suc i)
      then [t ! i, dot] else [t ! i])"
  have unfold: "insertBoundaryDots t = concat (map (F t) [0..<length t])" for t
    by (simp only: insertBoundaryDots_def F_def)
  have shift: "F (a # s) (Suc i) = F s i" for i
    by (simp add: F_def)
  have first: "F (a # s) 0 = (if s \<noteq> [] \<and> isLowerAlnum a \<and> isUpperAZ (hd s) then [a, dot] else [a])"
    by (cases s) (simp_all add: F_def)
  have "insertBoundaryDots (a # s) = concat (map (F (a # s)) [0..<Suc (length s)])"
    by (simp only: unfold length_Cons)
  also have "\<dots> = F (a # s) 0 @ concat (map (\<lambda>i. F (a # s) (Suc i)) [0..<length s])"
    by (simp add: map_upt_Suc del: upt_Suc)
  also have "\<dots> = F (a # s) 0 @ concat (map (F s) [0..<length s])"
    by (simp add: shift)
  also have "concat (map (F s) [0..<length s]) = insertBoundaryDots s"
    by (simp only: unfold)
  finally show ?thesis by (simp add: first)
qed

lemma insertDots_positions: "insertDots s = insertBoundaryDots s"
proof (induction s rule: insertDots.induct)
  case (1 a b cs)
  then show ?case by (simp add: insertBoundaryDots_Cons [of a])
qed (simp_all add: insertBoundaryDots_def)

text \<open>
  C6. \<open>toDotCase\<close> puts a dot at every boundary between a lowercase letter or digit and
  an uppercase letter that follows it, in one pass over the trimmed string, and then
  normalises and lowercases; \<open>'firstName'\<close> gives \<open>'first.name'\<close>.
\<close>

theorem toDotCase_boundaries:
  "toDotCase u (Str s) =
     Inr (if trim s = [] then [] else dotNormalize u (insertBoundaryDots (trim s)))
   \<and> insertBoundaryDots (js ''firstName'') = js ''first.Name''
   \<and> toDotCase u (Str (js ''firstName'')) = Inr (js ''first.name'')"
proof -
  have "toDotCase u (Str s) =
     Inr (if trim s = [] then [] else dotNormalize u (insertBoundaryDots (trim s)))"
    by (simp add: dotCase_def Let_def replaceBoundaries_insertDots insertDots_positions)
  moreover have "insertBoundaryDots (js ''firstName'') = js ''first.Name''"
    by (simp add: insertDots_positions [symmetric] js_def charClass_defs)
  moreover have "toDotCase u (Str (js ''firstName'')) = Inr (js ''first.name'')"
    by (simp add: dotCase_def dotNormalize_def stringOp_defs charClass_defs)
  ultimately show ?thesis by blast
qed

theorem toDotCase_boundaries_witness:
  "toDotCase asciiOnly (Str (js '' a1Bc-dE ''))
     = Inr (dotNormalize asciiOnly (js ''a1.Bc-d.E''))
   \<and> toDotCase asciiOnly (Str (js '' a1Bc-dE '')) = Inr (js ''a1.bc.d.e'')"
proof -
  have t: "trim (js '' a1Bc-dE '') = js ''a1Bc-dE''"
    by (simp add: stringOp_defs charClass_defs)
  have i: "insertBoundaryDots (js ''a1Bc-dE'') = js ''a1.Bc-d.E''"
    by (simp add: insertDots_positions [symmetric] js_def charClass_defs)
  have n: "dotNormalize asciiOnly (js ''a1.Bc-d.E'') = js ''a1.bc.d.e''"
    by (simp add: dotNormalize_def stringOp_defs charClass_defs)
  have e: "js ''a1Bc-dE'' \<noteq> []" by (simp add: js_def)
  from toDotCase_boundaries [of asciiOnly "js '' a1Bc-dE ''"] t i n e show ?thesis
    by simp
qed

subsection \<open>\<open>toCamelCase\<close> with separators\<close>

lemma segmentsOf_Nil: "segmentsOf C [] = []"
  by (simp add: segmentsOf.simps)

lemma segmentsOf_sep: "C c \<Longrightarrow> segmentsOf C (c # cs) = segmentsOf C cs"
  by (simp add: segmentsOf.simps [of C "c # cs"] segmentsOf.simps [of C cs])

lemma segmentsOf_word:
  "\<not> C c \<Longrightarrow> segmentsOf C (c # cs)
     = (c # takeWhile (\<lambda>c. \<not> C c) cs) # segmentsOf C (dropWhile (\<lambda>c. \<not> C c) cs)"
  by (simp add: segmentsOf.simps [of C "c # cs"])

lemma segmentsOf_dropWhile: "segmentsOf C (dropWhile C s) = segmentsOf C s"
  by (induction s) (simp_all add: segmentsOf_sep)

lemma splitRuns_nonempty: "splitRuns C s \<noteq> []"
  by (induction C s rule: splitRuns.induct) (auto split: list.splits)

lemma splitRuns_head: "hd (splitRuns C s) = takeWhile (\<lambda>c. \<not> C c) s"
proof (induction s)
  case Nil
  show ?case by simp
next
  case (Cons c cs)
  with splitRuns_nonempty [of C cs] show ?case
    by (cases "splitRuns C cs") auto
qed

lemma filterBoolean_splitRuns: "filterBoolean (splitRuns C s) = segmentsOf C s"
proof (induction C s rule: splitRuns.induct)
  case (1 C)
  show ?case by (simp add: filterBoolean_def segmentsOf_Nil)
next
  case (2 C c cs)
  show ?case
  proof (cases "C c")
    case True
    with 2(1) show ?thesis
      by (simp add: filterBoolean_def segmentsOf_sep segmentsOf_dropWhile)
  next
    case False
    obtain p ps where ps: "splitRuns C cs = p # ps"
      using splitRuns_nonempty [of C cs] by (cases "splitRuns C cs") auto
    with splitRuns_head [of C cs] have p: "p = takeWhile (\<lambda>c. \<not> C c) cs" by simp
    from 2(2) [OF False] ps have ih: "filterBoolean (p # ps) = segmentsOf C cs" by simp
    have rest: "filterBoolean ps = segmentsOf C (dropWhile (\<lambda>c. \<not> C c) cs)"
    proof (cases cs)
      case Nil
      with ih p show ?thesis by (simp add: filterBoolean_def segmentsOf_Nil)
    next
      case (Cons d ds)
      show ?thesis
      proof (cases "C d")
        case True
        with Cons p ih show ?thesis by (simp add: filterBoolean_def)
      next
        case nd: False
        with Cons p ih show ?thesis by (simp add: filterBoolean_def segmentsOf_word)
      qed
    qed
    from False ps p rest show ?thesis
      by (simp add: filterBoolean_def segmentsOf_word)
  qed
qed

lemma join_empty: "join [] xs = concat xs"
  by (induction "[]::jsstring" xs rule: join.induct) auto

lemma capitalize_eq:
  "capitalize u = (\<lambda>x. toUpperCase u (take 1 (toLowerCase u x)) @ drop 1 (toLowerCase u x))"
  by (simp add: fun_eq_iff capitalize_def Let_def charAt0_def slice1_def)

lemma camelCase_segments:
  assumes "trim s \<noteq> []" and "test isSeparator (trim s)"
  shows "camelCase u s = camelOfSegments u (segmentsOf isSeparator (trim s))"
  using assms
  by (simp add: camelCase_def Let_def filterBoolean_splitRuns camelOfSegments_def join_empty
      capitalize_eq split: list.splits)

text \<open>
  C2. For a string whose trimmed form is non-empty and has a separator (whitespace,
  underscore or hyphen), \<open>toCamelCase\<close> returns the camelCase of the segments of the
  trimmed string: the empty string when there is no segment, else the first segment
  lowercased followed by the other segments lowercased and capitalised, with nothing in
  between; \<open>'first name'\<close> gives \<open>'firstName'\<close> and \<open>'SCREEN_NAME'\<close> gives \<open>'screenName'\<close>.
\<close>

theorem toCamelCase_with_separator:
  "(trim s \<noteq> [] \<and> (\<exists>c\<in>set (trim s). isWhiteSpace c \<or> c = underscore \<or> c = hyphen) \<longrightarrow>
      toCamelCase u (Str s) = Inr (camelOfSegments u (segmentsOf isSeparator (trim s))))
   \<and> toCamelCase u (Str (js ''first name'')) = Inr (js ''firstName'')
   \<and> toCamelCase u (Str (js ''SCREEN_NAME'')) = Inr (js ''screenName'')"
proof (intro conjI impI)
  assume h: "trim s \<noteq> [] \<and> (\<exists>c\<in>set (trim s). isWhiteSpace c \<or> c = underscore \<or> c = hyphen)"
  then have "test isSeparator (trim s)"
    by (auto simp: test_def list_ex_iff isSeparator_def)
  with h show "toCamelCase u (Str s) = Inr (camelOfSegments u (segmentsOf isSeparator (trim s)))"
    by (simp add: camelCase_segments)
next
  show "toCamelCase u (Str (js ''first name'')) = Inr (js ''firstName'')"
    by (simp add: camelCase_def capitalize_def stringOp_defs charClass_defs)
next
  show "toCamelCase u (Str (js ''SCREEN_NAME'')) = Inr (js ''screenName'')"
    by (simp add: camelCase_def capitalize_def stringOp_defs charClass_defs)
qed

theorem toCamelCase_with_separator_witness:
  "trim (js '' -mobile--NUMBER_x '') \<noteq> []
   \<and> list_ex (\<lambda>c. isWhiteSpace c \<or> c = underscore \<or> c = hyphen) (trim (js '' -mobile--NUMBER_x ''))
   \<and> segmentsOf isSeparator (trim (js '' -mobile--NUMBER_x '')) = [js ''mobile'', js ''NUMBER'', js ''x'']
   \<and> toCamelCase asciiOnly (Str (js '' -mobile--NUMBER_x '')) = Inr (js ''mobileNumberX'')"
proof -
  let ?s = "js '' -mobile--NUMBER_x ''"
  have t: "trim ?s = js ''-mobile--NUMBER_x''"
    by (simp add: stringOp_defs charClass_defs)
  have a: "trim ?s \<noteq> []" by (simp add: t) (simp add: js_def)
  have b: "\<exists>c\<in>set (trim ?s). isWhiteSpace c \<or> c = underscore \<or> c = hyphen"
    by (simp add: t) (simp add: js_def charClass_defs)
  have c: "segmentsOf isSeparator (trim ?s) = [js ''mobile'', js ''NUMBER'', js ''x'']"
    by (simp add: t) (simp add: js_def segmentsOf_sep segmentsOf_word segmentsOf_Nil charClass_defs)
  have d: "camelOfSegments asciiOnly [js ''mobile'', js ''NUMBER'', js ''x''] = js ''mobileNumberX''"
    by (simp add: camelOfSegments_def stringOp_defs charClass_defs)
  from toCamelCase_with_separator [of ?s asciiOnly] a b c d
  have "toCamelCase asciiOnly (Str ?s) = Inr (js ''mobileNumberX'')" by simp
  with a b c show ?thesis unfolding list_ex_iff by blast
qed

subsection \<open>Strings without letters and digits\<close>

lemma set_trim: "set (trim s) \<subseteq> set s"
  by (auto simp: trim_def dest!: set_dropWhileD)

lemma dropWhile_head_not: "dropWhile C s = a # w \<Longrightarrow> \<not> C a"
  by (metis hd_dropWhile list.sel(1) list.distinct(1))

lemma segmentsOf_props:
  "p \<in> set (segmentsOf C s) \<Longrightarrow> p \<noteq> [] \<and> set p \<subseteq> set s \<and> (\<forall>c\<in>set p. \<not> C c)"
proof (induction C s arbitrary: p rule: segmentsOf.induct)
  case (1 C s)
  show ?case
  proof (cases "dropWhile C s")
    case Nil
    with 1(2) show ?thesis by (simp add: segmentsOf.simps [of C s])
  next
    case (Cons a w)
    then have a: "\<not> C a" by (rule dropWhile_head_not)
    have sub: "set (a # w) \<subseteq> set s"
      using Cons set_dropWhileD [of _ C s] by auto
    from 1(2) Cons have "p = takeWhile (\<lambda>c. \<not> C c) (a # w)
        \<or> p \<in> set (segmentsOf C (dropWhile (\<lambda>c. \<not> C c) (a # w)))"
      by (simp add: segmentsOf.simps [of C s])
    then show ?thesis
    proof
      assume p: "p = takeWhile (\<lambda>c. \<not> C c) (a # w)"
      then have "set p \<subseteq> set (a # w)" by (auto dest: set_takeWhileD)
      moreover from p have "\<forall>c\<in>set p. \<not> C c" by (auto dest: set_takeWhileD)
      moreover from p a have "p \<noteq> []" by simp
      ultimately show ?thesis using sub by blast
    next
      assume "p \<in> set (segmentsOf C (dropWhile (\<lambda>c. \<not> C c) (a # w)))"
      from 1(1) [OF Cons this]
      have "p \<noteq> [] \<and> set p \<subseteq> set (dropWhile (\<lambda>c. \<not> C c) (a # w)) \<and> (\<forall>c\<in>set p. \<not> C c)" .
      moreover have "set (dropWhile (\<lambda>c. \<not> C c) (a # w)) \<subseteq> set (a # w)"
        by (auto dest: set_dropWhileD)
      ultimately show ?thesis using sub by blast
    qed
  qed
qed

lemma filter_takeWhile_same: "filter P (takeWhile P xs) = takeWhile P xs"
  by (induction xs) auto

lemma concat_segmentsOf: "concat (segmentsOf C s) = filter (\<lambda>c. \<not> C c) s"
proof (induction C s rule: segmentsOf.induct)
  case (1 C s)
  show ?case
  proof (cases "dropWhile C s")
    case Nil
    then have "\<forall>c\<in>set s. C c" by simp
    then have "filter (\<lambda>c. \<not> C c) s = []" by (simp add: filter_empty_conv)
    with Nil show ?thesis by (simp add: segmentsOf.simps [of C s] del: dropWhile_eq_Nil_conv)
  next
    case (Cons a w)
    let ?N = "\<lambda>c. \<not> C c"
    have "filter ?N s = filter ?N (a # w)"
      using filter_dropWhile_not [of C s] Cons by simp
    also have "a # w = takeWhile ?N (a # w) @ dropWhile ?N (a # w)"
      by (simp only: takeWhile_dropWhile_id)
    also have "filter ?N \<dots> = takeWhile ?N (a # w) @ filter ?N (dropWhile ?N (a # w))"
      by (simp only: filter_append filter_takeWhile_same)
    finally show ?thesis
      using 1 [OF Cons] Cons by (simp add: segmentsOf.simps [of C s])
  qed
qed

lemma segmentsOf_cong:
  "\<forall>c\<in>set s. C c = D c \<Longrightarrow> segmentsOf C s = segmentsOf D s"
proof (induction C s rule: segmentsOf.induct)
  case (1 C s)
  have dw: "dropWhile C s = dropWhile D s"
    using 1(2) by (intro dropWhile_cong) auto
  show ?case
  proof (cases "dropWhile C s")
    case Nil
    with dw show ?thesis
      by (simp add: segmentsOf.simps [of C s] segmentsOf.simps [of D s] del: dropWhile_eq_Nil_conv)
  next
    case (Cons a w)
    have sub: "set (a # w) \<subseteq> set s"
      using Cons set_dropWhileD [of _ C s] by auto
    with 1(2) have agree: "\<forall>c\<in>set (a # w). C c = D c" by blast
    then have tw: "takeWhile (\<lambda>c. \<not> C c) (a # w) = takeWhile (\<lambda>c. \<not> D c) (a # w)"
      by (intro takeWhile_cong) auto
    from agree have dw2: "dropWhile (\<lambda>c. \<not> C c) (a # w) = dropWhile (\<lambda>c. \<not> D c) (a # w)"
      by (intro dropWhile_cong) auto
    have "set (dropWhile (\<lambda>c. \<not> C c) (a # w)) \<subseteq> set (a # w)"
      by (auto dest: set_dropWhileD)
    with agree have "\<forall>c\<in>set (dropWhile (\<lambda>c. \<not> C c) (a # w)). C c = D c" by blast
    from 1(1) [OF Cons this] have "segmentsOf C (dropWhile (\<lambda>c. \<not> C c) (a # w))
        = segmentsOf D (dropWhile (\<lambda>c. \<not> C c) (a # w))" .
    with Cons dw tw dw2 show ?thesis
      by (simp add: segmentsOf.simps [of C s] segmentsOf.simps [of D s])
  qed
qed

lemma segmentsOf_all_sep: "\<forall>c\<in>set s. C c \<Longrightarrow> segmentsOf C s = []"
  by (induction s) (simp_all add: segmentsOf_Nil segmentsOf_sep)

lemma segmentsOf_no_sep:
  assumes "s \<noteq> []" and "\<forall>c\<in>set s. \<not> C c"
  shows "segmentsOf C s = [s]"
proof -
  from assms obtain a w where aw: "s = a # w" and a: "\<not> C a" and w: "\<forall>c\<in>set w. \<not> C c"
    by (cases s) auto
  from w have "dropWhile (\<lambda>c. \<not> C c) w = []" by simp
  then have e1: "segmentsOf C (dropWhile (\<lambda>c. \<not> C c) w) = []"
    by (simp only: segmentsOf_Nil)
  from w have e2: "takeWhile (\<lambda>c. \<not> C c) w = w" by simp
  from a have "segmentsOf C (a # w)
      = (a # takeWhile (\<lambda>c. \<not> C c) w) # segmentsOf C (dropWhile (\<lambda>c. \<not> C c) w)"
    by (rule segmentsOf_word)
  also have "\<dots> = [a # w]" by (simp only: e1 e2)
  finally show ?thesis by (simp only: aw)
qed


lemma toLowerCase_ascii: "\<forall>c\<in>set p. isAscii c \<Longrightarrow> toLowerCase u p = map asciiLower p"
  by (simp add: toLowerCase_def list_all_iff)

lemma toUpperCase_ascii: "\<forall>c\<in>set p. isAscii c \<Longrightarrow> toUpperCase u p = map asciiUpper p"
  by (simp add: toUpperCase_def list_all_iff)

lemma asciiLower_no_letter: "\<not> isLetter c \<Longrightarrow> asciiLower c = c"
  by (simp add: asciiLower_def isLetter_def)

lemma asciiUpper_no_letter: "\<not> isLetter c \<Longrightarrow> asciiUpper c = c"
  by (simp add: asciiUpper_def isLetter_def)

lemma camelOfSegments_no_letters:
  assumes "\<forall>p\<in>set segs. \<forall>c\<in>set p. isAscii c \<and> \<not> isLetter c"
  shows "camelOfSegments u segs = concat segs"
proof -
  have lo: "toLowerCase u p = p" if "p \<in> set segs" for p
  proof -
    from that assms have "\<forall>c\<in>set p. isAscii c" "\<forall>c\<in>set p. asciiLower c = c"
      by (auto simp: asciiLower_no_letter)
    then show ?thesis by (simp add: toLowerCase_ascii map_idI)
  qed
  have up: "toUpperCase u (take 1 p) @ drop 1 p = p" if "p \<in> set segs" for p
  proof -
    have "set (take 1 p) \<subseteq> set p" by (rule set_take_subset)
    with that assms have "\<forall>c\<in>set (take 1 p). isAscii c" "\<forall>c\<in>set (take 1 p). asciiUpper c = c"
      by (auto simp: asciiUpper_no_letter)
    then have "toUpperCase u (take 1 p) = take 1 p"
      by (simp add: toUpperCase_ascii map_idI)
    then show ?thesis by simp
  qed
  show ?thesis
  proof (cases segs)
    case Nil
    then show ?thesis by (simp add: camelOfSegments_def)
  next
    case (Cons w ws)
    have "map (\<lambda>x. toUpperCase u (take 1 (toLowerCase u x)) @ drop 1 (toLowerCase u x)) ws
        = map (\<lambda>x. x) ws"
      using Cons lo up by (intro map_cong) auto
    with Cons lo [of w] show ?thesis by (simp add: camelOfSegments_def)
  qed
qed

lemma filter_none: "\<forall>c\<in>set s. P c \<Longrightarrow> filter P s = s"
  by (induction s) auto

text \<open>
  C5, as the code has it. For a string with no ASCII letter and no digit whose trimmed
  form is not empty, \<open>toDotCase\<close> returns the empty string and \<open>toKebabCase\<close> returns an
  error. \<open>toCamelCase\<close> returns the empty string when the trimmed string has only
  separators (whitespace, underscores, hyphens), the trimmed string unchanged when it has
  no separator, and, for an ASCII string, the trimmed string without its separators.
\<close>

theorem no_letters_no_digits:
  assumes "\<forall>c\<in>set s. \<not> isLetter c \<and> \<not> isDigit c" and "trim s \<noteq> []"
  shows "toDotCase u (Str s) = Inr []
       \<and> toKebabCase u (Str s) = Inl (Error ''Input cannot be converted to a valid kebab-case string'')
       \<and> ((\<forall>c\<in>set (trim s). isSeparator c) \<longrightarrow> toCamelCase u (Str s) = Inr [])
       \<and> ((\<forall>c\<in>set (trim s). \<not> isSeparator c) \<longrightarrow> toCamelCase u (Str s) = Inr (trim s))
       \<and> ((\<forall>c\<in>set s. isAscii c) \<longrightarrow>
            toCamelCase u (Str s) = Inr (filter (\<lambda>c. \<not> isSeparator c) (trim s)))"
proof -
  let ?t = "trim s"
  from assms(1) have na: "\<forall>c\<in>set s. \<not> isAlnum c" by (simp add: isAlnum_def)
  with set_trim [of s] have nat: "\<forall>c\<in>set ?t. \<not> isAlnum c" by blast
  then have nl: "\<forall>c\<in>set ?t. \<not> isLetter c" by (simp add: isAlnum_def)
  have d: "toDotCase u (Str s) = Inr []"
    using na by (simp add: dotCase_no_alnum)
  have "\<not> test isLowerAlnum (kebabOf u ?t)"
    using nat kebabNormalized_alnum [of ?t]
    by (simp add: test_def list_ex_iff kebabOf_normalized)
  with assms(2) have k: "toKebabCase u (Str s)
      = Inl (Error ''Input cannot be converted to a valid kebab-case string'')"
    by (simp add: Let_def)
  have c1: "toCamelCase u (Str s) = Inr []" if "\<forall>c\<in>set ?t. isSeparator c"
  proof -
    from that assms(2) have "test isSeparator ?t"
      by (cases ?t) (auto simp: test_def)
    with assms(2) that show ?thesis
      by (simp add: camelCase_segments segmentsOf_all_sep camelOfSegments_def)
  qed
  have c2: "toCamelCase u (Str s) = Inr ?t" if "\<forall>c\<in>set ?t. \<not> isSeparator c"
    using that assms(2) nl by (simp add: camelCase_def test_def list_ex_iff)
  have c3: "toCamelCase u (Str s) = Inr (filter (\<lambda>c. \<not> isSeparator c) ?t)"
    if asc: "\<forall>c\<in>set s. isAscii c"
  proof (cases "test isSeparator ?t")
    case True
    have "\<forall>p\<in>set (segmentsOf isSeparator ?t). \<forall>c\<in>set p. isAscii c \<and> \<not> isLetter c"
      using segmentsOf_props [of _ isSeparator ?t] set_trim [of s] asc nl by blast
    then have "camelOfSegments u (segmentsOf isSeparator ?t) = concat (segmentsOf isSeparator ?t)"
      by (rule camelOfSegments_no_letters)
    with True assms(2) show ?thesis
      by (simp add: camelCase_segments concat_segmentsOf)
  next
    case False
    then have "\<forall>c\<in>set ?t. \<not> isSeparator c" by (simp add: test_def list_ex_iff)
    with c2 show ?thesis by (simp add: filter_none)
  qed
  from d k c1 c2 c3 show ?thesis by blast
qed

theorem no_letters_no_digits_witness:
  "list_all (\<lambda>c. \<not> isLetter c \<and> \<not> isDigit c) (js ''-_-'') \<and> trim (js ''-_-'') \<noteq> []
   \<and> list_all isSeparator (trim (js ''-_-''))
   \<and> list_all isAscii (js ''-_-'')
   \<and> toDotCase asciiOnly (Str (js ''-_-'')) = Inr []
   \<and> toKebabCase asciiOnly (Str (js ''-_-''))
       = Inl (Error ''Input cannot be converted to a valid kebab-case string'')
   \<and> toCamelCase asciiOnly (Str (js ''-_-'')) = Inr []
   \<and> list_all (\<lambda>c. \<not> isLetter c \<and> \<not> isDigit c) (js ''?!'') \<and> trim (js ''?!'') \<noteq> []
   \<and> list_all (\<lambda>c. \<not> isSeparator c) (trim (js ''?!''))
   \<and> toCamelCase asciiOnly (Str (js ''?!'')) = Inr (js ''?!'')
   \<and> list_all (\<lambda>c. \<not> isLetter c \<and> \<not> isDigit c) (js ''!-?'') \<and> trim (js ''!-?'') \<noteq> []
   \<and> list_all isAscii (js ''!-?'')
   \<and> toCamelCase asciiOnly (Str (js ''!-?'')) = Inr (js ''!?'')"
proof -
  have a: "\<forall>c\<in>set (js ''-_-''). \<not> isLetter c \<and> \<not> isDigit c"
    by (simp add: js_def charClass_defs)
  have t: "trim (js ''-_-'') = js ''-_-''" by (simp add: stringOp_defs charClass_defs)
  have b: "trim (js ''-_-'') \<noteq> []" by (simp add: t) (simp add: js_def)
  have c: "\<forall>c\<in>set (trim (js ''-_-'')). isSeparator c"
    by (simp add: t) (simp add: js_def charClass_defs)
  have d: "\<forall>c\<in>set (js ''-_-''). isAscii c" by (simp add: js_def isAscii_def)
  have a': "\<forall>c\<in>set (js ''?!''). \<not> isLetter c \<and> \<not> isDigit c"
    by (simp add: js_def charClass_defs)
  have t': "trim (js ''?!'') = js ''?!''" by (simp add: stringOp_defs charClass_defs)
  have b': "trim (js ''?!'') \<noteq> []" by (simp add: t') (simp add: js_def)
  have c': "\<forall>c\<in>set (trim (js ''?!'')). \<not> isSeparator c"
    by (simp add: t') (simp add: js_def charClass_defs)
  have a'': "\<forall>c\<in>set (js ''!-?''). \<not> isLetter c \<and> \<not> isDigit c"
    by (simp add: js_def charClass_defs)
  have t'': "trim (js ''!-?'') = js ''!-?''" by (simp add: stringOp_defs charClass_defs)
  have b'': "trim (js ''!-?'') \<noteq> []" by (simp add: t'') (simp add: js_def)
  have d'': "\<forall>c\<in>set (js ''!-?''). isAscii c" by (simp add: js_def isAscii_def)
  have f'': "filter (\<lambda>c. \<not> isSeparator c) (js ''!-?'') = js ''!?''"
    by (simp add: js_def charClass_defs)
  note th = no_letters_no_digits [OF a b, of asciiOnly]
  note th' = no_letters_no_digits [OF a' b', of asciiOnly]
  note th'' = no_letters_no_digits [OF a'' b'', of asciiOnly]
  from th c have 1: "toCamelCase asciiOnly (Str (js ''-_-'')) = Inr []" by blast
  from th' c' have 2: "toCamelCase asciiOnly (Str (js ''?!'')) = Inr (js ''?!'')"
    by (simp add: t')
  from th'' d'' have 3: "toCamelCase asciiOnly (Str (js ''!-?'')) = Inr (js ''!?'')"
    by (simp add: t'' f'')
  from th a b c d a' b' c' a'' b'' d'' 1 2 3 show ?thesis
    unfolding list_all_iff by blast
qed


text \<open>
  Punctuation is no separator for \<open>toCamelCase\<close>: \<open>'!!!'\<close> has no letter, digit or
  separator and is returned as it is, not as the empty string.
\<close>

theorem toCamelCase_keeps_punctuation:
  "toCamelCase asciiOnly (Str (js ''!!!'')) = Inr (js ''!!!'')
   \<and> js ''!!!'' \<noteq> []
   \<and> list_all (\<lambda>c. \<not> isLetter c \<and> \<not> isDigit c) (js ''!!!'')"
  by (simp add: camelCase_def stringOp_defs charClass_defs)

subsection \<open>The two \<open>toCamelCase\<close> functions\<close>

lemma asciiUpper_asciiLower: "asciiUpper (asciiLower c) = asciiUpper c"
  by (auto simp: asciiUpper_def asciiLower_def isUpperAZ_def isLowerAZ_def)

lemma asciiLower_ascii: "isAscii c \<Longrightarrow> isAscii (asciiLower c)"
  by (auto simp: asciiLower_def isAscii_def isUpperAZ_def)

lemma capitalize_capitalizePart:
  assumes "\<forall>c\<in>set p. isAscii c"
  shows "capitalize u p = capitalizePart u p"
proof -
  have "set (take 1 p) \<subseteq> set p" "set (drop 1 p) \<subseteq> set p"
    by (rule set_take_subset, rule set_drop_subset)
  with assms have a: "\<forall>c\<in>set (take 1 p). isAscii c" "\<forall>c\<in>set (drop 1 p). isAscii c"
    by blast+
  from a(1) have b: "\<forall>c\<in>set (take 1 (map asciiLower p)). isAscii c"
    by (auto simp: take_map asciiLower_ascii)
  from assms have "capitalize u p
      = toUpperCase u (take 1 (map asciiLower p)) @ drop 1 (map asciiLower p)"
    by (simp add: capitalize_eq toLowerCase_ascii)
  also have "\<dots> = map asciiUpper (take 1 (map asciiLower p)) @ drop 1 (map asciiLower p)"
    using b by (simp only: toUpperCase_ascii)
  also have "\<dots> = map asciiUpper (take 1 p) @ map asciiLower (drop 1 p)"
    by (simp add: take_map drop_map asciiUpper_asciiLower)
  also have "\<dots> = capitalizePart u p"
    using a by (simp add: capitalizePart_def charAt0_def slice1_def toUpperCase_ascii
        toLowerCase_ascii)
  finally show ?thesis .
qed

lemma camelOfSegments_capitalize:
  "camelOfSegments u segs =
     (case segs of [] \<Rightarrow> [] | w # ws \<Rightarrow> toLowerCase u w @ concat (map (capitalize u) ws))"
  by (cases segs) (simp_all add: camelOfSegments_def capitalize_eq)

lemma fewshot_segments:
  "toCamelCase_fewshot u (Str s) =
     (case segmentsOf notAlnum (trim s) of
        [] \<Rightarrow> []
      | p0 # ps \<Rightarrow> toLowerCase u p0 @ concat (map (capitalizePart u) ps))"
  by (simp add: filterBoolean_splitRuns join_empty split: list.splits)

lemma alnum_not_separator: "isAlnum c \<Longrightarrow> \<not> isSeparator c"
  by (auto simp: charClass_defs)

lemma map_fixed: "(map f xs = xs) = (\<forall>x\<in>set xs. f x = x)"
  by (induction xs) auto

lemma asciiLower_fixed: "(asciiLower c = c) = (\<not> isUpperAZ c)"
  by (simp add: asciiLower_def)

lemma asciiUpper_fixed: "(asciiUpper c = c) = (\<not> isLowerAZ c)"
  by (auto simp: asciiUpper_def isLowerAZ_def)

text \<open>
  C10, as the code has it. On a string whose trimmed form has only ASCII letters, digits,
  whitespace, underscores and hyphens, the \<open>toCamelCase\<close> of \<open>refined_prompt.js\<close> and the
  one of \<open>part_000\<close> return the same string exactly when the trimmed form has a separator
  or does not have both an uppercase and a lowercase letter.
\<close>

theorem toCamelCase_implementations_agree:
  assumes "\<forall>c\<in>set (trim s). isAlnum c \<or> isWhiteSpace c \<or> c = underscore \<or> c = hyphen"
  shows "(toCamelCase u (Str s) = Inr (toCamelCase_fewshot u (Str s)))
       = ((\<exists>c\<in>set (trim s). isWhiteSpace c \<or> c = underscore \<or> c = hyphen)
          \<or> \<not> ((\<exists>c\<in>set (trim s). isUpperAZ c) \<and> (\<exists>c\<in>set (trim s). isLowerAZ c)))"
proof -
  let ?t = "trim s"
  have sep: "(isWhiteSpace c \<or> c = underscore \<or> c = hyphen) = isSeparator c" for c
    by (simp add: isSeparator_def)
  from assms have dom: "\<forall>c\<in>set ?t. isAlnum c \<or> isSeparator c"
    by (simp add: sep)
  then have agree: "\<forall>c\<in>set ?t. notAlnum c = isSeparator c"
    by (auto simp: notAlnum_def alnum_not_separator)
  then have segs: "segmentsOf notAlnum ?t = segmentsOf isSeparator ?t"
    by (rule segmentsOf_cong)
  have asc: "\<forall>c\<in>set p. isAscii c" if "p \<in> set (segmentsOf isSeparator ?t)" for p
  proof
    fix c assume c: "c \<in> set p"
    with segmentsOf_props [OF that] have "c \<in> set ?t" "\<not> isSeparator c" by auto
    with dom have "isAlnum c" by blast
    then show "isAscii c" by (rule alnum_ascii)
  qed
  show ?thesis
  proof (cases "?t = []")
    case True
    then show ?thesis
      by (simp add: camelCase_def filterBoolean_def)
  next
    case ne: False
    show ?thesis
    proof (cases "test isSeparator ?t")
      case True
      have "camelOfSegments u (segmentsOf isSeparator ?t)
          = (case segmentsOf isSeparator ?t of
               [] \<Rightarrow> []
             | p0 # ps \<Rightarrow> toLowerCase u p0 @ concat (map (capitalizePart u) ps))"
      proof (cases "segmentsOf isSeparator ?t")
        case Nil
        then show ?thesis by (simp add: camelOfSegments_capitalize)
      next
        case (Cons p0 ps)
        have "capitalize u x = capitalizePart u x" if "x \<in> set ps" for x
        proof -
          from that Cons have "x \<in> set (segmentsOf isSeparator ?t)" by simp
          from asc [OF this] show ?thesis by (rule capitalize_capitalizePart)
        qed
        then have "map (capitalize u) ps = map (capitalizePart u) ps"
          by (intro map_cong) auto
        then show ?thesis
          by (simp only: camelOfSegments_capitalize Cons list.case)
      qed
      with True ne segs have "toCamelCase u (Str s) = Inr (toCamelCase_fewshot u (Str s))"
        unfolding fewshot_segments by (simp add: camelCase_segments)
      moreover from True have "\<exists>c\<in>set ?t. isWhiteSpace c \<or> c = underscore \<or> c = hyphen"
        by (simp add: test_def list_ex_iff sep)
      ultimately show ?thesis by simp
    next
      case False
      then have nosep: "\<forall>c\<in>set ?t. \<not> isSeparator c"
        by (simp add: test_def list_ex_iff)
      with dom have alnum: "\<forall>c\<in>set ?t. isAlnum c" by blast
      then have ascii: "\<forall>c\<in>set ?t. isAscii c" by (simp add: alnum_ascii)
      from alnum have "\<forall>c\<in>set ?t. \<not> notAlnum c" by (simp add: notAlnum_def)
      with ne have "segmentsOf notAlnum ?t = [?t]" by (rule segmentsOf_no_sep)
      then have few: "toCamelCase_fewshot u (Str s) = map asciiLower ?t"
        unfolding fewshot_segments using ascii by (simp add: toLowerCase_ascii)
      have ref: "toCamelCase u (Str s)
          = Inr (if (\<exists>c\<in>set ?t. isLetter c) \<and> ?t = map asciiUpper ?t
                 then map asciiLower ?t else ?t)"
        using False ne ascii
        by (simp add: camelCase_def test_def list_ex_iff toUpperCase_ascii toLowerCase_ascii)
      have lo: "(?t = map asciiLower ?t) = (\<forall>c\<in>set ?t. \<not> isUpperAZ c)"
        using map_fixed [of asciiLower ?t] by (auto simp: asciiLower_fixed)
      have up: "(?t = map asciiUpper ?t) = (\<forall>c\<in>set ?t. \<not> isLowerAZ c)"
        using map_fixed [of asciiUpper ?t] by (auto simp: asciiUpper_fixed)
      have "(toCamelCase u (Str s) = Inr (toCamelCase_fewshot u (Str s)))
          = (\<not> ((\<exists>c\<in>set ?t. isUpperAZ c) \<and> (\<exists>c\<in>set ?t. isLowerAZ c)))"
        unfolding ref few using lo up by (auto simp: isLetter_def)
      moreover from nosep have "\<not> (\<exists>c\<in>set ?t. isWhiteSpace c \<or> c = underscore \<or> c = hyphen)"
        by (simp add: sep)
      ultimately show ?thesis by simp
    qed
  qed
qed

theorem toCamelCase_implementations_agree_witness:
  "list_all (\<lambda>c. isAlnum c \<or> isWhiteSpace c \<or> c = underscore \<or> c = hyphen) (trim (js '' user_id ''))
   \<and> list_ex (\<lambda>c. isWhiteSpace c \<or> c = underscore \<or> c = hyphen) (trim (js '' user_id ''))
   \<and> toCamelCase asciiOnly (Str (js '' user_id ''))
       = Inr (toCamelCase_fewshot asciiOnly (Str (js '' user_id '')))
   \<and> toCamelCase_fewshot asciiOnly (Str (js '' user_id '')) = js ''userId''"
proof -
  let ?s = "js '' user_id ''"
  have t: "trim ?s = js ''user_id''" by (simp add: stringOp_defs charClass_defs)
  have a: "\<forall>c\<in>set (trim ?s). isAlnum c \<or> isWhiteSpace c \<or> c = underscore \<or> c = hyphen"
    by (simp add: t) (simp add: js_def charClass_defs)
  have b: "\<exists>c\<in>set (trim ?s). isWhiteSpace c \<or> c = underscore \<or> c = hyphen"
    by (simp add: t) (simp add: js_def charClass_defs)
  have c: "toCamelCase_fewshot asciiOnly (Str ?s) = js ''userId''"
    by (simp add: capitalizePart_def stringOp_defs charClass_defs)
  from toCamelCase_implementations_agree [OF a, of asciiOnly] b
  have "toCamelCase asciiOnly (Str ?s) = Inr (toCamelCase_fewshot asciiOnly (Str ?s))"
    by blast
  with a b c show ?thesis unfolding list_all_iff list_ex_iff by blast
qed


text \<open>
  The two functions differ on \<open>'alreadyCamel'\<close>, which the first returns unchanged and the
  second lowercases, and on \<open>'a.b'\<close>, where only the second splits at the dot.
\<close>

theorem toCamelCase_implementations_differ:
  "toCamelCase asciiOnly (Str (js ''alreadyCamel'')) = Inr (js ''alreadyCamel'')
   \<and> toCamelCase_fewshot asciiOnly (Str (js ''alreadyCamel'')) = js ''alreadycamel''
   \<and> js ''alreadyCamel'' \<noteq> js ''alreadycamel''
   \<and> toCamelCase asciiOnly (Str (js ''a.b'')) = Inr (js ''a.b'')
   \<and> toCamelCase_fewshot asciiOnly (Str (js ''a.b'')) = js ''aB''
   \<and> js ''a.b'' \<noteq> js ''aB''"
  by (simp add: camelCase_def capitalizePart_def stringOp_defs charClass_defs)

subsection \<open>Number inputs and other types of \<open>toCamelCase\<close> and \<open>toDotCase\<close>\<close>

lemma replicate_numeral: "replicate (numeral k) x = x # replicate (pred_numeral k) x"
  by (simp add: numeral_eq_Suc)

text \<open>
  The \<open>String\<close> forms of \<open>123\<close>, \<open>1000\<close>, \<open>1e21\<close>, \<open>2 ^ 60\<close>, \<open>1.5\<close>, \<open>-5\<close>, \<open>0.000001\<close>,
  \<open>1e-7\<close> and \<open>1.2345e21\<close>.
\<close>

lemma numberToString_examples:
  "numberToString (natNumber 123) = js ''123''
   \<and> numberToString (natNumber 1000) = js ''1000''
   \<and> numberToString (Finite False 1 22) = js ''1e+21''
   \<and> numberToString (Finite False 1152921504606847 19) = js ''1152921504606847000''
   \<and> numberToString (Finite False 15 1) = js ''1.5''
   \<and> numberToString (Finite True 5 1) = js ''-5''
   \<and> numberToString (Finite False 1 (- 5)) = js ''0.000001''
   \<and> numberToString (Finite False 1 (- 6)) = js ''1e-7''
   \<and> numberToString (Finite False 12345 22) = js ''1.2345e+21''"
  by (simp add: natNumber_def stripZeros.simps finiteToString_def digitsOf.simps js_def
      replicate_numeral)

text \<open>Numbers that are not plain digits go through the string steps like any string.\<close>

lemma number_inputs_examples:
  "toDotCase u (Num NaN) = Inr (js ''na.n'')
   \<and> toDotCase u (Num (Finite False 1 22)) = Inr (js ''1e.21'')
   \<and> toCamelCase u (Num (Finite False 1 22)) = Inr (js ''1e+21'')
   \<and> toCamelCase u (Num (Finite False 15 1)) = Inr (js ''1.5'')
   \<and> toCamelCase u (Num (Finite True 5 1)) = Inr (js ''5'')
   \<and> toCamelCase u (Num PosInfinity) = Inr (js ''Infinity'')"
  by (simp add: camelCase_def capitalize_def dotCase_def dotNormalize_def finiteToString_def
      digitsOf.simps stringOp_defs charClass_defs)

lemma digitsOf_nonempty: "digitsOf n \<noteq> []"
  by (subst digitsOf.simps) simp

lemma digitsOf_digits: "c \<in> set (digitsOf n) \<Longrightarrow> isDigit c"
proof (induction n arbitrary: c rule: digitsOf.induct)
  case (1 n)
  show ?case
  proof (cases "n < 10")
    case True
    with 1(2) show ?thesis by (simp add: digitsOf.simps [of n] isDigit_def)
  next
    case False
    with 1(2) have "c \<in> set (digitsOf (n div 10)) \<or> c = 48 + n mod 10"
      by (auto simp: digitsOf.simps [of n])
    then show ?thesis
    proof
      assume "c \<in> set (digitsOf (n div 10))"
      with 1(1) False show ?thesis by simp
    next
      assume "c = 48 + n mod 10"
      moreover have "n mod 10 < 10" by simp
      ultimately show ?thesis by (simp add: isDigit_def)
    qed
  qed
qed

lemma digitsOf_times_10: "0 < m \<Longrightarrow> digitsOf (m * 10) = digitsOf m @ [48]"
  by (subst digitsOf.simps) simp

lemma stripZeros_digits:
  "0 < i \<Longrightarrow> \<exists>z. digitsOf i = digitsOf (stripZeros i) @ replicate z 48"
proof (induction i rule: stripZeros.induct)
  case (1 i)
  show ?case
  proof (cases "i mod 10 = 0")
    case True
    with 1(2) have d: "0 < i div 10" "i = (i div 10) * 10" by auto
    with 1(1) True obtain z where z: "digitsOf (i div 10) = digitsOf (stripZeros (i div 10)) @ replicate z 48"
      by auto
    from d have "digitsOf i = digitsOf (i div 10) @ [48]"
      using digitsOf_times_10 [of "i div 10"] by simp
    with z have "digitsOf i = digitsOf (stripZeros (i div 10)) @ replicate (Suc z) 48"
      by (simp add: replicate_append_same)
    moreover from True 1(2) have "stripZeros i = stripZeros (i div 10)"
      by (simp add: stripZeros.simps [of i])
    ultimately show ?thesis by metis
  next
    case False
    then have "stripZeros i = i" by (simp add: stripZeros.simps [of i])
    then have "digitsOf i = digitsOf (stripZeros i) @ replicate 0 48" by simp
    then show ?thesis by blast
  qed
qed

lemma length_digitsOf: "0 < m \<Longrightarrow> i < 10 ^ m \<Longrightarrow> length (digitsOf i) \<le> m"
proof (induction i arbitrary: m rule: digitsOf.induct)
  case (1 n)
  show ?case
  proof (cases "n < 10")
    case True
    with 1(2) show ?thesis by (simp add: digitsOf.simps [of n])
  next
    case False
    with 1(3) have "m \<noteq> 1" by auto
    with 1(2) have m: "1 < m" by simp
    then obtain m' where m': "m = Suc m'" "0 < m'" by (cases m) auto
    with 1(3) have "n div 10 < 10 ^ m'" by (simp add: less_mult_imp_div_less mult.commute)
    with 1(1) [OF False m'(2)] have "length (digitsOf (n div 10)) \<le> m'" by simp
    with False m' show ?thesis by (simp add: digitsOf.simps [of n])
  qed
qed

lemma numberToString_natNumber:
  assumes "i < 10 ^ 21"
  shows "numberToString (natNumber i) = digitsOf i"
proof (cases "i = 0")
  case True
  then show ?thesis by (simp add: natNumber_def js_def digitsOf.simps)
next
  case False
  then obtain z where z: "digitsOf i = digitsOf (stripZeros i) @ replicate z 48"
    using stripZeros_digits [of i] by auto
  let ?k = "length (digitsOf (stripZeros i))" and ?n = "length (digitsOf i)"
  from z have n: "?n = ?k + z" by (metis length_append length_replicate)
  from assms have "?n \<le> 21" by (intro length_digitsOf) auto
  with n False show ?thesis
    using z by (simp add: natNumber_def finiteToString_def Let_def)
qed


lemma digit_classes:
  "isDigit c \<Longrightarrow> \<not> isWhiteSpace c \<and> \<not> isSeparator c \<and> \<not> isLetter c \<and> \<not> isUpperAZ c
     \<and> \<not> notAlnumDot c \<and> \<not> isDot c \<and> c \<noteq> dot \<and> isAscii c \<and> asciiLower c = c"
  by (auto simp: charClass_defs asciiLower_def)

lemma replaceBoundaries_no_upper: "\<forall>c\<in>set s. \<not> isUpperAZ c \<Longrightarrow> replaceBoundaries s = s"
  by (induction s rule: replaceBoundaries.induct) auto

lemma replaceRuns_none: "\<forall>c\<in>set s. \<not> C c \<Longrightarrow> replaceRuns C r s = s"
  by (induction s) auto

lemma splitChar_none: "\<forall>c\<in>set s. c \<noteq> d \<Longrightarrow> splitChar d s = [s]"
  by (induction s) auto

lemma camelCase_digits:
  assumes "ds \<noteq> []" and "\<forall>c\<in>set ds. isDigit c"
  shows "camelCase u ds = ds"
proof -
  from assms(2) have "trim ds = ds" by (simp add: trim_no_whitespace digit_classes)
  moreover from assms(2) have "\<not> test isSeparator ds" "\<not> test isLetter ds"
    by (simp_all add: test_def list_ex_iff digit_classes)
  ultimately show ?thesis using assms(1) by (simp add: camelCase_def)
qed

lemma dotCase_digits:
  assumes "ds \<noteq> []" and "\<forall>c\<in>set ds. isDigit c"
  shows "dotCase u ds = ds"
proof -
  from assms(2) have t: "trim ds = ds" by (simp add: trim_no_whitespace digit_classes)
  from assms(2) have b: "replaceBoundaries ds = ds"
    by (simp add: replaceBoundaries_no_upper digit_classes)
  from assms(2) have r1: "replaceRuns notAlnumDot [dot] ds = ds"
    by (simp add: replaceRuns_none digit_classes)
  from assms(2) have r2: "replaceRuns isDot [dot] ds = ds"
    by (simp add: replaceRuns_none digit_classes)
  from assms(2) have s: "stripDots ds = ds"
    by (simp add: stripDots_def dropWhile_none digit_classes)
  from assms(2) have sp: "splitChar dot ds = [ds]"
    by (simp add: splitChar_none digit_classes)
  from assms(2) have lo: "toLowerCase u ds = ds"
    by (simp add: toLowerCase_ascii digit_classes map_idI)
  from assms(1) t b r1 r2 s sp lo show ?thesis
    by (simp add: dotCase_def dotNormalize_def filterBoolean_def)
qed

text \<open>
  C9. \<open>toCamelCase\<close> and \<open>toDotCase\<close> treat a number as its \<open>String\<close> form. For an integer
  from 0 to \<open>2 ^ 53\<close> that form is its decimal digits, and both functions return these
  digits (\<open>toCamelCase(123)\<close> is \<open>'123'\<close>, \<open>toDotCase(2021)\<close> is \<open>'2021'\<close>). Both return a
  \<open>TypeError\<close> for every input that is neither a string nor a number, such as a boolean,
  an object or \<open>null\<close>.
\<close>

theorem number_coercion_and_type_errors:
  "toCamelCase u (Num x) = toCamelCase u (Str (numberToString x))
   \<and> toDotCase u (Num x) = toDotCase u (Str (numberToString x))
   \<and> (i \<le> 2 ^ 53 \<longrightarrow>
        numberToString (natNumber i) = digitsOf i
        \<and> toCamelCase u (Num (natNumber i)) = Inr (digitsOf i)
        \<and> toDotCase u (Num (natNumber i)) = Inr (digitsOf i))
   \<and> toCamelCase u (Num (natNumber 123)) = Inr (js ''123'')
   \<and> toDotCase u (Num (natNumber 2021)) = Inr (js ''2021'')
   \<and> (typeof v \<noteq> ''string'' \<and> typeof v \<noteq> ''number'' \<longrightarrow>
        toCamelCase u v = Inl (TypeError ''toCamelCase expects a string or number'')
        \<and> toDotCase u v = Inl (TypeError ''toDotCase expects a string or number''))
   \<and> toCamelCase u (Bool True) = Inl (TypeError ''toCamelCase expects a string or number'')
   \<and> toDotCase u Obj = Inl (TypeError ''toDotCase expects a string or number'')
   \<and> toCamelCase u Null = Inl (TypeError ''toCamelCase expects a string or number'')"
proof -
  have safe: "numberToString (natNumber j) = digitsOf j
        \<and> toCamelCase u (Num (natNumber j)) = Inr (digitsOf j)
        \<and> toDotCase u (Num (natNumber j)) = Inr (digitsOf j)" if "j \<le> 2 ^ 53" for j
  proof -
    have "(2::nat) ^ 53 < 10 ^ 21" by simp
    with that have "j < 10 ^ 21" by simp
    then have "numberToString (natNumber j) = digitsOf j" by (rule numberToString_natNumber)
    then show ?thesis
      using digitsOf_nonempty [of j] digitsOf_digits [of _ j]
      by (simp add: camelCase_digits dotCase_digits)
  qed
  have 0: "i \<le> 2 ^ 53 \<longrightarrow>
        numberToString (natNumber i) = digitsOf i
        \<and> toCamelCase u (Num (natNumber i)) = Inr (digitsOf i)
        \<and> toDotCase u (Num (natNumber i)) = Inr (digitsOf i)"
    using safe [of i] by blast
  have d1: "digitsOf 123 = js ''123''" and d2: "digitsOf 2021 = js ''2021''"
    by (simp_all add: digitsOf.simps js_def)
  have "(123::nat) \<le> 2 ^ 53" and "(2021::nat) \<le> 2 ^ 53" by simp_all
  then have "toCamelCase u (Num (natNumber 123)) = Inr (digitsOf 123)"
    and "toDotCase u (Num (natNumber 2021)) = Inr (digitsOf 2021)"
    using safe by blast+
  then have 1: "toCamelCase u (Num (natNumber 123)) = Inr (js ''123'')"
    and 2: "toDotCase u (Num (natNumber 2021)) = Inr (js ''2021'')"
    by (simp_all only: d1 d2)
  have 3: "typeof v \<noteq> ''string'' \<and> typeof v \<noteq> ''number'' \<longrightarrow>
        toCamelCase u v = Inl (TypeError ''toCamelCase expects a string or number'')
        \<and> toDotCase u v = Inl (TypeError ''toDotCase expects a string or number'')"
    by (cases v) simp_all
  have 4: "toCamelCase u (Num x) = toCamelCase u (Str (numberToString x))"
    and 5: "toDotCase u (Num x) = toDotCase u (Str (numberToString x))"
    and 6: "toCamelCase u (Bool True) = Inl (TypeError ''toCamelCase expects a string or number'')"
    and 7: "toDotCase u Obj = Inl (TypeError ''toDotCase expects a string or number'')"
    and 8: "toCamelCase u Null = Inl (TypeError ''toCamelCase expects a string or number'')"
    by simp_all
  from 0 1 2 3 4 5 6 7 8 show ?thesis by blast
qed

theorem number_coercion_and_type_errors_witness:
  "typeof (Bool False) \<noteq> ''string'' \<and> typeof (Bool False) \<noteq> ''number''
   \<and> toCamelCase asciiOnly (Bool False) = Inl (TypeError ''toCamelCase expects a string or number'')
   \<and> toDotCase asciiOnly (Bool False) = Inl (TypeError ''toDotCase expects a string or number'')
   \<and> (1200::nat) \<le> 2 ^ 53
   \<and> natNumber 1200 = Finite False 12 4
   \<and> numberToString (natNumber 1200) = js ''1200''
   \<and> toCamelCase asciiOnly (Num (natNumber 1200)) = Inr (js ''1200'')
   \<and> toDotCase asciiOnly (Num (natNumber 1200)) = Inr (js ''1200'')
   \<and> toDotCase asciiOnly (Num NaN) = toDotCase asciiOnly (Str (js ''NaN''))"
proof -
  have a: "(1200::nat) \<le> 2 ^ 53" by simp
  have b: "natNumber 1200 = Finite False 12 4"
    by (simp add: natNumber_def stripZeros.simps digitsOf.simps)
  have c: "digitsOf 1200 = js ''1200''" by (simp add: digitsOf.simps js_def)
  have d: "typeof (Bool False) \<noteq> ''string'' \<and> typeof (Bool False) \<noteq> ''number''" by simp
  note th = number_coercion_and_type_errors [of asciiOnly NaN 1200 "Bool False"]
  from th a have "numberToString (natNumber 1200) = digitsOf 1200
      \<and> toCamelCase asciiOnly (Num (natNumber 1200)) = Inr (digitsOf 1200)
      \<and> toDotCase asciiOnly (Num (natNumber 1200)) = Inr (digitsOf 1200)"
    by blast
  then have 1: "numberToString (natNumber 1200) = js ''1200''
      \<and> toCamelCase asciiOnly (Num (natNumber 1200)) = Inr (js ''1200'')
      \<and> toDotCase asciiOnly (Num (natNumber 1200)) = Inr (js ''1200'')"
    by (simp only: c)
  from th d have 2: "toCamelCase asciiOnly (Bool False)
        = Inl (TypeError ''toCamelCase expects a string or number'')
      \<and> toDotCase asciiOnly (Bool False) = Inl (TypeError ''toDotCase expects a string or number'')"
    by blast
  from th have 3: "toDotCase asciiOnly (Num NaN) = toDotCase asciiOnly (Str (js ''NaN''))"
    by (simp del: toDotCase.simps toCamelCase.simps)
  from a b d 1 2 3 show ?thesis by blast
qed

subsection \<open>The ends of a \<open>toKebabCase\<close> result\<close>

lemma last_dropWhile_nonempty: "dropWhile P xs \<noteq> [] \<Longrightarrow> last (dropWhile P xs) = last xs"
  by (induction xs) (auto split: if_splits)

lemma kept_relevant: "isAlnum c \<or> c = hyphen \<Longrightarrow> kebabRelevant c"
  by (auto simp: kebabRelevant_def)

lemma kept_none:
  assumes "filter kebabRelevant t = []"
  shows "filter (\<lambda>c. isAlnum c \<or> c = hyphen) (replaceRuns isWhiteSpace [hyphen] t) = []"
proof -
  from assms have n: "\<forall>c\<in>set t. \<not> kebabRelevant c" by (simp add: filter_empty_conv)
  then have "\<forall>c\<in>set t. \<not> isWhiteSpace c" by (auto simp: kebabRelevant_def)
  then have "replaceRuns isWhiteSpace [hyphen] t = t" by (rule replaceRuns_none)
  with n show ?thesis by (auto simp: filter_empty_conv kebabRelevant_def)
qed

lemma kept_hd:
  "filter kebabRelevant t \<noteq> [] \<longrightarrow>
     filter (\<lambda>c. isAlnum c \<or> c = hyphen) (replaceRuns isWhiteSpace [hyphen] t) \<noteq> []
     \<and> hd (filter (\<lambda>c. isAlnum c \<or> c = hyphen) (replaceRuns isWhiteSpace [hyphen] t))
         = hyphenFor (hd (filter kebabRelevant t))"
proof (induction t)
  case Nil
  show ?case by simp
next
  case (Cons c cs)
  show ?case
  proof (cases "isWhiteSpace c")
    case True
    then show ?thesis by (simp add: kebabRelevant_def hyphenFor_def)
  next
    case False
    show ?thesis
    proof (cases "isAlnum c \<or> c = hyphen")
      case True
      with False show ?thesis by (auto simp: kebabRelevant_def hyphenFor_def)
    next
      case nk: False
      with False have "\<not> kebabRelevant c" by (auto simp: kebabRelevant_def)
      with False nk Cons show ?thesis by simp
    qed
  qed
qed

lemma filter_relevant_whitespace_run:
  "filter kebabRelevant cs = takeWhile isWhiteSpace cs @ filter kebabRelevant (dropWhile isWhiteSpace cs)"
proof -
  have "filter kebabRelevant (takeWhile isWhiteSpace cs) = takeWhile isWhiteSpace cs"
    by (rule filter_none) (auto dest: set_takeWhileD simp: kebabRelevant_def)
  then have "filter kebabRelevant (takeWhile isWhiteSpace cs @ dropWhile isWhiteSpace cs)
      = takeWhile isWhiteSpace cs @ filter kebabRelevant (dropWhile isWhiteSpace cs)"
    by (simp only: filter_append)
  then show ?thesis by (simp only: takeWhile_dropWhile_id)
qed

lemma last_whitespace_run: "isWhiteSpace c \<Longrightarrow> isWhiteSpace (last (c # takeWhile isWhiteSpace cs))"
proof -
  assume c: "isWhiteSpace c"
  have "last (c # takeWhile isWhiteSpace cs) \<in> set (c # takeWhile isWhiteSpace cs)"
    by (rule last_in_set) simp
  with c show ?thesis by (auto dest: set_takeWhileD)
qed

lemma kept_last:
  "filter kebabRelevant t \<noteq> [] \<longrightarrow>
     filter (\<lambda>c. isAlnum c \<or> c = hyphen) (replaceRuns isWhiteSpace [hyphen] t) \<noteq> []
     \<and> last (filter (\<lambda>c. isAlnum c \<or> c = hyphen) (replaceRuns isWhiteSpace [hyphen] t))
         = hyphenFor (last (filter kebabRelevant t))"
proof (induction isWhiteSpace "[hyphen]" t rule: replaceRuns.induct)
  case 1
  show ?case by simp
next
  case (2 c cs)
  let ?keep = "\<lambda>c. isAlnum c \<or> c = hyphen"
  let ?K = "\<lambda>t. filter ?keep (replaceRuns isWhiteSpace [hyphen] t)"
  show ?case
  proof (cases "isWhiteSpace c")
    case True
    let ?cs' = "dropWhile isWhiteSpace cs"
    have A: "?K (c # cs) = hyphen # ?K ?cs'" using True by simp
    have B: "filter kebabRelevant (c # cs)
        = (c # takeWhile isWhiteSpace cs) @ filter kebabRelevant ?cs'"
      using True filter_relevant_whitespace_run [of cs] by (simp add: kebabRelevant_def)
    show ?thesis
    proof (cases "filter kebabRelevant ?cs' = []")
      case e: True
      then have "?K ?cs' = []" by (rule kept_none)
      with A have "?K (c # cs) = [hyphen]" by simp
      moreover from B e have "filter kebabRelevant (c # cs) = c # takeWhile isWhiteSpace cs"
        by simp
      moreover note last_whitespace_run [OF True, of cs]
      ultimately show ?thesis by (simp add: hyphenFor_def)
    next
      case ne: False
      with 2(1) [OF True] have ih: "?K ?cs' \<noteq> []"
        "last (?K ?cs') = hyphenFor (last (filter kebabRelevant ?cs'))" by simp_all
      from A ih(1) have "last (?K (c # cs)) = last (?K ?cs')" by simp
      moreover from B ne have "last (filter kebabRelevant (c # cs)) = last (filter kebabRelevant ?cs')"
        by simp
      ultimately show ?thesis using ih A by simp
    qed
  next
    case False
    have R: "replaceRuns isWhiteSpace [hyphen] (c # cs) = c # replaceRuns isWhiteSpace [hyphen] cs"
      using False by simp
    show ?thesis
    proof (cases "?keep c")
      case True
      then have rel: "kebabRelevant c" by (rule kept_relevant)
      show ?thesis
      proof (cases "filter kebabRelevant cs = []")
        case e: True
        then have "?K cs = []" by (rule kept_none)
        with R True have "?K (c # cs) = [c]" by simp
        with e rel False show ?thesis by (simp add: hyphenFor_def)
      next
        case ne: False
        with 2(2) [OF False] have ih: "?K cs \<noteq> []"
          "last (?K cs) = hyphenFor (last (filter kebabRelevant cs))" by simp_all
        from R True have "?K (c # cs) = c # ?K cs" by simp
        with ih ne rel show ?thesis by simp
      qed
    next
      case nk: False
      with False have nrel: "\<not> kebabRelevant c" by (auto simp: kebabRelevant_def)
      from R nk have "?K (c # cs) = ?K cs" by simp
      with nrel 2(2) [OF False] show ?thesis by simp
    qed
  qed
qed

lemma collapse_ends:
  "k \<noteq> [] \<longrightarrow> replaceRuns isHyphen [hyphen] k \<noteq> []
     \<and> hd (replaceRuns isHyphen [hyphen] k) = hd k
     \<and> last (replaceRuns isHyphen [hyphen] k) = last k"
proof (induction isHyphen "[hyphen]" k rule: replaceRuns.induct)
  case 1
  show ?case by simp
next
  case (2 c cs)
  show ?case
  proof (cases "isHyphen c")
    case True
    then have c: "c = hyphen" by (simp add: isHyphen_def)
    show ?thesis
    proof (cases "dropWhile isHyphen cs = []")
      case e: True
      then have "\<forall>x\<in>set cs. x = hyphen" by (simp add: isHyphen_def)
      then have "last (c # cs) = hyphen" using c by (cases "cs = []") auto
      moreover from e have "replaceRuns isHyphen [hyphen] (dropWhile isHyphen cs) = []"
        by (simp only: replaceRuns.simps)
      ultimately show ?thesis using True c by simp
    next
      case ne: False
      then have cs: "cs \<noteq> []" by auto
      from ne have "last (dropWhile isHyphen cs) = last cs" by (rule last_dropWhile_nonempty)
      with 2(1) [OF True] ne cs True c show ?thesis by simp
    qed
  next
    case False
    with 2(2) [OF False] show ?thesis by (cases "cs = []") simp_all
  qed
qed


lemma relevant_alnum_iff: "kebabRelevant x \<Longrightarrow> (hyphenFor x \<noteq> hyphen) = isAlnum x"
  by (auto simp: kebabRelevant_def hyphenFor_def alnum_not_whitespace hyphen_not_alnum)

text \<open>
  Where a normalised string starts and ends with a hyphen: the condition on the first and
  on the last of the characters that are not deleted is exact.
\<close>

lemma kebabNormalized_ends:
  assumes "\<exists>c\<in>set t. isAlnum c"
  shows "kebabNormalized t \<noteq> []
       \<and> (hd (kebabNormalized t) \<noteq> hyphen) = isAlnum (hd (filter kebabRelevant t))
       \<and> (last (kebabNormalized t) \<noteq> hyphen) = isAlnum (last (filter kebabRelevant t))"
proof -
  let ?k2 = "filter (\<lambda>c. isAlnum c \<or> c = hyphen) (replaceRuns isWhiteSpace [hyphen] t)"
  let ?k3 = "replaceRuns isHyphen [hyphen] ?k2"
  let ?rel = "filter kebabRelevant t"
  from assms have ne: "?rel \<noteq> []"
    by (auto simp: filter_empty_conv kebabRelevant_def)
  then have "hd ?rel \<in> set ?rel" "last ?rel \<in> set ?rel"
    by (rule hd_in_set, rule last_in_set)
  then have rel: "kebabRelevant (hd ?rel)" "kebabRelevant (last ?rel)"
    by (simp_all only: set_filter mem_Collect_eq)
  from ne kept_hd [of t] kept_last [of t]
  have k2: "?k2 \<noteq> []" "hd ?k2 = hyphenFor (hd ?rel)" "last ?k2 = hyphenFor (last ?rel)"
    by blast+
  with collapse_ends [of ?k2]
  have k3: "?k3 \<noteq> []" "hd ?k3 = hyphenFor (hd ?rel)" "last ?k3 = hyphenFor (last ?rel)"
    by simp_all
  have r: "kebabNormalized t = map asciiLower ?k3" by (simp add: kebabNormalized_def)
  from k3 have "hd (map asciiLower ?k3) = asciiLower (hyphenFor (hd ?rel))"
    and "last (map asciiLower ?k3) = asciiLower (hyphenFor (last ?rel))"
    by (simp_all add: hd_map last_map)
  with r have "(hd (kebabNormalized t) \<noteq> hyphen) = (hyphenFor (hd ?rel) \<noteq> hyphen)"
    and "(last (kebabNormalized t) \<noteq> hyphen) = (hyphenFor (last ?rel) \<noteq> hyphen)"
    by (simp_all add: asciiLower_hyphen)
  with rel k3(1) r show ?thesis by (simp add: relevant_alnum_iff)
qed

text \<open>
  C1, as the code has it. A non-empty string returned by \<open>toKebabCase\<close> has only
  lowercase ASCII letters, digits and hyphens, at least one letter or digit, and no two
  hyphens in a row. It does not start with a hyphen when the first character of the
  trimmed input that is a letter, digit, hyphen or whitespace is a letter or digit, and
  it does not end with a hyphen when the last such character is a letter or digit.
\<close>

theorem toKebabCase_output_shape:
  assumes "toKebabCase u v = Inr (Str r)" and "r \<noteq> []"
  shows "(\<forall>c\<in>set r. isLowerAZ c \<or> isDigit c \<or> c = hyphen)
       \<and> (\<exists>c\<in>set r. isLowerAZ c \<or> isDigit c)
       \<and> (\<forall>i. Suc i < length r \<longrightarrow> \<not> (r ! i = hyphen \<and> r ! Suc i = hyphen))
       \<and> (\<forall>s. v = Str s \<and> isAlnum (hd (filter kebabRelevant (trim s))) \<longrightarrow> hd r \<noteq> hyphen)
       \<and> (\<forall>s. v = Str s \<and> isAlnum (last (filter kebabRelevant (trim s))) \<longrightarrow> last r \<noteq> hyphen)"
proof -
  from assms obtain s where v: "v = Str s" by (cases v) auto
  from assms v have t: "trim s \<noteq> []"
    by (auto simp: Let_def split: if_splits)
  from assms v t have r: "r = kebabNormalized (trim s)" and ok: "test isLowerAlnum r"
    by (auto simp: Let_def kebabOf_normalized split: if_splits)
  have a: "\<forall>c\<in>set r. isLowerAZ c \<or> isDigit c \<or> c = hyphen"
    using kebabNormalized_chars [of _ "trim s"] r by (auto simp: isLowerAlnum_def)
  have b: "\<exists>c\<in>set r. isLowerAZ c \<or> isDigit c"
    using ok by (simp add: test_def list_ex_iff isLowerAlnum_def)
  have c: "\<forall>i. Suc i < length r \<longrightarrow> \<not> (r ! i = hyphen \<and> r ! Suc i = hyphen)"
    using kebabNormalized_noDouble [of "trim s"] r by (simp add: noDouble_nth)
  from ok r have "\<exists>c\<in>set (trim s). isAlnum c"
    using kebabNormalized_alnum [of "trim s"] by (simp add: test_def list_ex_iff)
  from kebabNormalized_ends [OF this] r v
  have d: "\<forall>s'. v = Str s' \<and> isAlnum (hd (filter kebabRelevant (trim s'))) \<longrightarrow> hd r \<noteq> hyphen"
    and e: "\<forall>s'. v = Str s' \<and> isAlnum (last (filter kebabRelevant (trim s'))) \<longrightarrow> last r \<noteq> hyphen"
    by simp_all
  from a b c d e show ?thesis by blast
qed

theorem toKebabCase_output_shape_witness:
  "toKebabCase asciiOnly (Str (js ''!Hello, world?'')) = Inr (Str (js ''hello-world''))
   \<and> js ''hello-world'' \<noteq> []
   \<and> filter kebabRelevant (trim (js ''!Hello, world?'')) = js ''Hello world''
   \<and> isAlnum (hd (filter kebabRelevant (trim (js ''!Hello, world?''))))
   \<and> isAlnum (last (filter kebabRelevant (trim (js ''!Hello, world?''))))
   \<and> list_all (\<lambda>c. isLowerAZ c \<or> isDigit c \<or> c = hyphen) (js ''hello-world'')
   \<and> list_ex (\<lambda>c. isLowerAZ c \<or> isDigit c) (js ''hello-world'')
   \<and> js ''hello-world'' ! 5 = hyphen
   \<and> js ''hello-world'' ! 6 \<noteq> hyphen
   \<and> hd (js ''hello-world'') \<noteq> hyphen
   \<and> last (js ''hello-world'') \<noteq> hyphen"
proof -
  let ?s = "js ''!Hello, world?''" and ?r = "js ''hello-world''"
  have a: "toKebabCase asciiOnly (Str ?s) = Inr (Str ?r)"
    by (simp add: kebabOf_def stringOp_defs charClass_defs)
  have b: "?r \<noteq> []" by (simp add: js_def)
  have f: "filter kebabRelevant (trim ?s) = js ''Hello world''"
    by (simp add: kebabRelevant_def stringOp_defs charClass_defs)
  have g: "isAlnum (hd (js ''Hello world''))" "isAlnum (last (js ''Hello world''))"
    by (simp_all add: js_def charClass_defs)
  have d: "?r ! 5 = hyphen" by (simp add: js_def hyphen_def)
  note th = toKebabCase_output_shape [OF a b]
  from th have 1: "list_all (\<lambda>c. isLowerAZ c \<or> isDigit c \<or> c = hyphen) ?r"
    unfolding list_all_iff by blast
  from th have 2: "list_ex (\<lambda>c. isLowerAZ c \<or> isDigit c) ?r"
    unfolding list_ex_iff by blast
  from th have "Suc 5 < length ?r \<longrightarrow> \<not> (?r ! 5 = hyphen \<and> ?r ! Suc 5 = hyphen)"
    by blast
  with d have 3: "?r ! 6 \<noteq> hyphen" by (simp add: js_def)
  from f g have h: "isAlnum (hd (filter kebabRelevant (trim ?s)))"
    "isAlnum (last (filter kebabRelevant (trim ?s)))" by simp_all
  from th h have 4: "hd ?r \<noteq> hyphen" "last ?r \<noteq> hyphen" by blast+
  from a b f h d 1 2 3 4 show ?thesis by blast
qed

text \<open>
  Hyphens of the input are kept, and a whitespace run before deleted characters leaves
  its hyphen: \<open>'-a'\<close> gives \<open>'-a'\<close>, and \<open>'a !'\<close> gives \<open>'a-'\<close>.
\<close>

theorem toKebabCase_leading_trailing_hyphen:
  "toKebabCase asciiOnly (Str (js ''-a'')) = Inr (Str (js ''-a''))
   \<and> js ''-a'' \<noteq> [] \<and> hd (js ''-a'') = hyphen
   \<and> toKebabCase asciiOnly (Str (js ''a !'')) = Inr (Str (js ''a-''))
   \<and> js ''a-'' \<noteq> [] \<and> last (js ''a-'') = hyphen"
  by (simp add: kebabOf_def stringOp_defs charClass_defs)

end
